theory Spec2Isabelle
  imports Main
begin

section \<open>Data model (main.go, lines 19-66)\<close>

text \<open>
  The structs of main.go as records. Identifiers are Go \<open>int\<close>s; the program only
  stores and compares them, so they are modelled as \<open>int\<close>. A channel is a
  reference: its address is a \<open>nat\<close> and its state lives in a heap. The element type
  of every channel here is \<open>struct{}\<close>, so a channel's buffer is the number of
  pending elements.
\<close>

record Patient =
  ID :: int
  Login :: string
  Password :: string
  Name :: string

record Doctor =
  ID :: int
  Login :: string
  Password :: string
  First :: string
  Last :: string
  Middle :: string
  Special :: string

record Seed =
  Patients :: "Patient list"
  Doctors :: "Doctor list"

record Selection =
  PatientID :: int
  DoctorID :: int

record chan =
  buf :: nat
  cap :: nat
  closed :: bool

datatype error = ErrNew string | ErrReadFile | ErrUnmarshal

datatype 'a outcome = Return 'a | Panic string

text \<open>
  What \<open>os.ReadFile\<close> followed by \<open>json.Unmarshal\<close> finds at a path: no readable
  file, bytes that do not parse, or a value. The JSON encoder and decoder of the Go
  standard library are taken as inverse to each other on the types written here.
\<close>

datatype 'a stored = NoFile | Malformed | Content 'a

text \<open>
  What \<open>os.WriteFile\<close> does: it replaces the file by the bytes given, or it fails and
  leaves whatever the operating system left there.
\<close>

datatype 'a write_result = Written | WriteFailed "'a stored"

text \<open>
  The fields of \<open>Store\<close> that the relation and the notification hub use
  (\<open>patients\<close>, \<open>doctors\<close>, \<open>selections\<close>, \<open>subs\<close>), followed by the part of the
  runtime they act on: the heap of channels with its allocation pointer, the file at
  \<open>selectionFile\<close>, and the number of \<open>persistSelections\<close> goroutines started by
  \<open>go\<close> that have not run yet. The login index \<open>byLogin\<close> is read by \<open>Login\<close> only
  and is left out.
\<close>

record Store =
  patients :: "int \<rightharpoonup> Patient"
  doctors :: "int \<rightharpoonup> Doctor"
  selections :: "int \<rightharpoonup> int"
  subs :: "int \<rightharpoonup> nat set"
  chans :: "nat \<Rightarrow> chan"
  nextch :: nat
  disk :: "Selection list stored"
  spawned :: nat

section \<open>Iteration over Go maps\<close>

text \<open>
  \<open>for k, v := range m\<close> visits every entry of \<open>m\<close> once, in an order the runtime
  chooses. A loop over a map therefore takes the visiting order as an argument: a list
  of the entries (of the keys, for a map used as a set), and \<open>range_map\<close> and
  \<open>range_set\<close> say that the list is such an order.
\<close>

definition range_map :: "('k \<times> 'v) list \<Rightarrow> ('k \<rightharpoonup> 'v) \<Rightarrow> bool" where
  "range_map es m \<longleftrightarrow> distinct (map fst es) \<and> map_of es = m"

definition range_set :: "'a list \<Rightarrow> 'a set \<Rightarrow> bool" where
  "range_set xs A \<longleftrightarrow> distinct xs \<and> set xs = A"

text \<open>\<open>s.subs[doctorID]\<close>: a missing key reads as the nil map, which has no entries.\<close>

definition subs_of :: "Store \<Rightarrow> int \<Rightarrow> nat set" where
  "subs_of s doctorID = (case subs s doctorID of None \<Rightarrow> {} | Some cs \<Rightarrow> cs)"

section \<open>Startup and persistence (main.go, lines 68-137)\<close>

definition loadSelections :: "Store \<Rightarrow> error option \<times> Store" where
  "loadSelections s =
     (case disk s of
        NoFile \<Rightarrow> (Some ErrReadFile, s)
      | Malformed \<Rightarrow> (Some ErrUnmarshal, s)
      | Content arr \<Rightarrow>
          (None, s\<lparr>selections :=
             fold (\<lambda>x m. m(PatientID x \<mapsto> DoctorID x)) arr (selections s)\<rparr>))"

definition persistSelections ::
  "(int \<times> int) list \<Rightarrow> Selection list write_result \<Rightarrow> Store \<Rightarrow> Store" where
  "persistSelections es w s =
     (let arr = map (\<lambda>(pid, did). \<lparr>PatientID = pid, DoctorID = did\<rparr>) es
      in s\<lparr>disk := (case w of Written \<Rightarrow> Content arr | WriteFailed f \<Rightarrow> f)\<rparr>)"

text \<open>
  \<open>NewStore\<close> gets what is at the seed path and at the selections path. The heap of a
  fresh process holds no channel; its cells read as an unallocated channel.
\<close>

definition NewStore :: "Seed stored \<Rightarrow> Selection list stored \<Rightarrow> error + Store" where
  "NewStore seed sel =
     (case seed of
        NoFile \<Rightarrow> Inl ErrReadFile
      | Malformed \<Rightarrow> Inl ErrUnmarshal
      | Content sd \<Rightarrow>
          (let st = \<lparr>patients = fold (\<lambda>p m. m(Patient.ID p \<mapsto> p)) (Patients sd) Map.empty,
                     doctors = fold (\<lambda>d m. m(Doctor.ID d \<mapsto> d)) (Doctors sd) Map.empty,
                     selections = Map.empty,
                     subs = fold (\<lambda>d m. m(Doctor.ID d \<mapsto> {})) (Doctors sd) Map.empty,
                     chans = (\<lambda>_. \<lparr>buf = 0, cap = 0, closed = False\<rparr>),
                     nextch = 0,
                     disk = sel,
                     spawned = 0\<rparr>
           in Inr (snd (loadSelections st))))"

section \<open>The relation store (main.go, lines 183-215)\<close>

text \<open>
  The non-blocking send \<open>select { case ch <- struct{}{}: default: }\<close> over the
  subscribers in visiting order. A send on a closed channel panics; the loop stops
  there with the heap as it is.
\<close>

fun publish :: "nat list \<Rightarrow> (nat \<Rightarrow> chan) \<Rightarrow> string option \<times> (nat \<Rightarrow> chan)" where
  "publish [] h = (None, h)"
| "publish (ch # cs) h =
     (if closed (h ch) then (Some ''send on closed channel'', h)
      else publish cs
             (if buf (h ch) < cap (h ch) then h(ch := (h ch)\<lparr>buf := Suc (buf (h ch))\<rparr>)
              else h))"

definition SelectDoctor ::
  "nat list \<Rightarrow> Store \<Rightarrow> int \<Rightarrow> int \<Rightarrow> error option outcome \<times> Store" where
  "SelectDoctor cs s patientID doctorID =
     (case patients s patientID of
        None \<Rightarrow> (Return (Some (ErrNew ''patient not found'')), s)
      | Some _ \<Rightarrow>
          (case doctors s doctorID of
             None \<Rightarrow> (Return (Some (ErrNew ''doctor not found'')), s)
           | Some _ \<Rightarrow>
               (let s1 = s\<lparr>selections := (selections s)(patientID \<mapsto> doctorID)\<rparr>;
                    s2 = s1\<lparr>spawned := Suc (spawned s1)\<rparr>;
                    (p, h) = publish cs (chans s2)
                in ((case p of None \<Rightarrow> Return None | Some msg \<Rightarrow> Panic msg),
                    s2\<lparr>chans := h\<rparr>))))"

fun PatientsOfDoctor_loop ::
  "(int \<times> int) list \<Rightarrow> (int \<rightharpoonup> Patient) \<Rightarrow> int \<Rightarrow> Patient list \<Rightarrow> Patient list" where
  "PatientsOfDoctor_loop [] ps doctorID res = res"
| "PatientsOfDoctor_loop ((pid, did) # es) ps doctorID res =
     PatientsOfDoctor_loop es ps doctorID
       (if did = doctorID
        then (case ps pid of Some p \<Rightarrow> res @ [p] | None \<Rightarrow> res)
        else res)"

definition PatientsOfDoctor :: "(int \<times> int) list \<Rightarrow> Store \<Rightarrow> int \<Rightarrow> Patient list" where
  "PatientsOfDoctor es s doctorID = PatientsOfDoctor_loop es (patients s) doctorID []"

section \<open>The notification hub (main.go, lines 217-232 and 340-365)\<close>

text \<open>
  The closure \<open>cancel\<close> returned by \<open>Subscribe\<close>, with the variables it captures
  (\<open>doctorID\<close> and \<open>ch\<close>) as arguments. \<open>delete\<close> on a nil map does nothing; \<open>close\<close>
  of a closed channel panics, after the \<open>delete\<close> has been done.
\<close>

definition cancel :: "int \<Rightarrow> nat \<Rightarrow> Store \<Rightarrow> unit outcome \<times> Store" where
  "cancel doctorID ch s =
     (let s1 = (case subs s doctorID of
                  None \<Rightarrow> s
                | Some cs \<Rightarrow> s\<lparr>subs := (subs s)(doctorID \<mapsto> cs - {ch})\<rparr>)
      in if closed (chans s1 ch) then (Panic ''close of closed channel'', s1)
         else (Return (), s1\<lparr>chans := (chans s1)(ch := (chans s1 ch)\<lparr>closed := True\<rparr>)\<rparr>))"

definition Subscribe ::
  "int \<Rightarrow> Store \<Rightarrow> (nat \<times> (Store \<Rightarrow> unit outcome \<times> Store)) \<times> Store" where
  "Subscribe doctorID s =
     (let ch = nextch s;
          s1 = s\<lparr>chans := (chans s)(ch := \<lparr>buf = 0, cap = 1, closed = False\<rparr>),
                 nextch := Suc ch\<rparr>;
          s2 = (case subs s1 doctorID of
                  None \<Rightarrow> s1\<lparr>subs := (subs s1)(doctorID \<mapsto> {})\<rparr>
                | Some _ \<Rightarrow> s1);
          s3 = s2\<lparr>subs := (subs s2)(doctorID \<mapsto> insert ch (subs_of s2 doctorID))\<rparr>
      in ((ch, cancel doctorID ch), s3))"

text \<open>
  The branch \<open>case <-ch\<close> of the streaming loop (lines 350-365), tried once: with a
  pending element the receive takes it and the loop writes an update event; on a
  closed and drained channel the receive yields the zero value at once; otherwise the
  branch is not ready and nothing happens.
\<close>

definition recv :: "nat \<Rightarrow> Store \<Rightarrow> bool \<times> Store" where
  "recv ch s =
     (let c = chans s ch
      in if 0 < buf c then (True, s\<lparr>chans := (chans s)(ch := c\<lparr>buf := buf c - 1\<rparr>)\<rparr>)
         else (closed c, s))"

section \<open>Sequences of calls\<close>

text \<open>
  A burst of \<open>SelectDoctor\<close> calls for one doctor with no receive in between; each
  call comes with the order in which its loop visits the subscribers.
\<close>

fun burst ::
  "(nat list \<times> int) list \<Rightarrow> int \<Rightarrow> Store \<Rightarrow> error option outcome list \<times> Store" where
  "burst [] doctorID s = ([], s)"
| "burst ((cs, patientID) # calls) doctorID s =
     (let (r, s1) = SelectDoctor cs s patientID doctorID;
          (rs, s2) = burst calls doctorID s1
      in (r # rs, s2))"

text \<open>
  One operation of the running server on the store. Every method of \<open>Store\<close> takes
  \<open>s.mu\<close> for its whole body, so the methods act one after another. A receive of
  the stream loop is outside the mutex, but it touches one channel, once, as a call
  of \<open>SelectDoctor\<close> does, so it acts before or after the call it overlaps. A
  \<open>cancel\<close> is the closure of a \<open>Subscribe\<close>, called with the doctor and the
  channel of that subscription: the channel is still registered for that doctor, or
  this \<open>cancel\<close> has run before and the channel is closed. A \<open>persistSelections\<close>
  step is the run of one goroutine started by \<open>SelectDoctor\<close>.
\<close>

inductive step :: "Store \<Rightarrow> Store \<Rightarrow> bool" where
  step_select:
    "range_set cs (subs_of s doctorID) \<Longrightarrow> step s (snd (SelectDoctor cs s patientID doctorID))"
| step_subscribe:
    "step s (snd (Subscribe doctorID s))"
| step_cancel:
    "ch \<in> subs_of s doctorID \<or> closed (chans s ch) \<Longrightarrow>
     step s (snd (cancel doctorID ch s))"
| step_recv:
    "step s (snd (recv ch s))"
| step_persist:
    "0 < spawned s \<Longrightarrow> range_map es (selections s) \<Longrightarrow>
     step s ((persistSelections es w s)\<lparr>spawned := spawned s - 1\<rparr>)"

section \<open>Invariants\<close>

text \<open>The directory is keyed by the identifier of the record (lines 90-91).\<close>

definition dir_ok :: "Store \<Rightarrow> bool" where
  "dir_ok s \<longleftrightarrow> (\<forall>i p. patients s i = Some p \<longrightarrow> Patient.ID p = i)"

text \<open>Referential integrity of the relation.\<close>

definition ref_ok :: "Store \<Rightarrow> bool" where
  "ref_ok s \<longleftrightarrow>
     (\<forall>pid did. selections s pid = Some did \<longrightarrow>
        pid \<in> dom (patients s) \<and> did \<in> dom (doctors s))"

text \<open>
  The registry holds channels made by \<open>Subscribe\<close> and not yet cancelled: allocated,
  open, of capacity one, and registered for one doctor only.
\<close>

definition hub_ok :: "Store \<Rightarrow> bool" where
  "hub_ok s \<longleftrightarrow>
     (\<forall>d ch. ch \<in> subs_of s d \<longrightarrow>
        ch < nextch s \<and> \<not> closed (chans s ch) \<and> cap (chans s ch) = 1 \<and>
        buf (chans s ch) \<le> 1) \<and>
     (\<forall>d d' ch. ch \<in> subs_of s d \<longrightarrow> ch \<in> subs_of s d' \<longrightarrow> d = d')"

section \<open>Goroutines and the mutex (main.go, lines 128-137 and 183-201)\<close>

text \<open>
  For the span of the lock, the calls are run as goroutines, one statement at a time,
  against the readers-writer mutex \<open>s.mu\<close>. A goroutine is the list of the statements
  it has still to run, with its local variables: the slice \<open>arr\<close> of
  \<open>persistSelections\<close> and the value returned. \<open>SelectDoctor_code\<close> and
  \<open>persistSelections_code\<close> are the two bodies, statement by statement in the order
  of the source. The deferred \<open>Unlock\<close> (\<open>RUnlock\<close>) runs when the function returns,
  so it is the last statement, and a return or a panic on the way goes to it.
  \<open>RangeSubs\<close> is the head of the loop \<open>for ch := range s.subs[doctorID]\<close>, where
  the order of the visit is fixed; \<open>TrySend\<close> is one non-blocking send;
  \<open>Go_persistSelections\<close> is the \<open>go\<close> statement, with the scan order and the
  outcome of the write that the goroutine it starts will meet.
\<close>

datatype instr =
    Lock | Unlock | RLock | RUnlock
  | CheckPatient int | CheckDoctor int | SetSelection int int
  | Go_persistSelections "(int \<times> int) list" "Selection list write_result"
  | RangeSubs int "nat list" | TrySend nat
  | Snapshot "(int \<times> int) list" | WriteFile "Selection list write_result"

record thread =
  cont :: "instr list"
  local_arr :: "Selection list"
  ret :: "error option outcome"

record config =
  mu_writer :: bool
  mu_readers :: nat
  st :: Store
  threads :: "thread list"

definition start :: "instr list \<Rightarrow> thread" where
  "start k = \<lparr>cont = k, local_arr = [], ret = Return None\<rparr>"

definition persistSelections_code ::
  "(int \<times> int) list \<Rightarrow> Selection list write_result \<Rightarrow> instr list" where
  "persistSelections_code es w = [RLock, Snapshot es, WriteFile w, RUnlock]"

definition SelectDoctor_code ::
  "nat list \<Rightarrow> (int \<times> int) list \<Rightarrow> Selection list write_result \<Rightarrow> int \<Rightarrow> int \<Rightarrow> instr list" where
  "SelectDoctor_code cs es w patientID doctorID =
     [Lock, CheckPatient patientID, CheckDoctor doctorID, SetSelection patientID doctorID,
      Go_persistSelections es w, RangeSubs doctorID cs] @ map TrySend cs @ [Unlock]"

text \<open>
  One statement, run by a goroutine \<open>t\<close> whose remaining statements after it are
  \<open>r\<close>; the result is the goroutine and the configuration after it, or \<open>None\<close>
  when the statement cannot run now. \<open>Lock\<close> waits while a writer or a reader holds
  the mutex, and \<open>RLock\<close> waits while a writer holds it (the \<open>RLock\<close> of
  \<open>sync.RWMutex\<close> waits for a waiting writer as well: that removes runs and adds
  none). \<open>Unlock\<close> of a mutex that is not locked for writing and \<open>RUnlock\<close> of one
  that is not locked for reading are fatal errors of the runtime: no step. The other
  statements do to the store what \<open>SelectDoctor\<close> and \<open>persistSelections\<close> do.
\<close>

fun exec_instr :: "instr \<Rightarrow> instr list \<Rightarrow> thread \<Rightarrow> config \<Rightarrow> (thread \<times> config) option" where
  "exec_instr Lock r t c =
     (if mu_writer c \<or> 0 < mu_readers c then None
      else Some (t\<lparr>cont := r\<rparr>, c\<lparr>mu_writer := True\<rparr>))"
| "exec_instr Unlock r t c =
     (if mu_writer c then Some (t\<lparr>cont := r\<rparr>, c\<lparr>mu_writer := False\<rparr>) else None)"
| "exec_instr RLock r t c =
     (if mu_writer c then None
      else Some (t\<lparr>cont := r\<rparr>, c\<lparr>mu_readers := Suc (mu_readers c)\<rparr>))"
| "exec_instr RUnlock r t c =
     (if 0 < mu_readers c then Some (t\<lparr>cont := r\<rparr>, c\<lparr>mu_readers := mu_readers c - 1\<rparr>)
      else None)"
| "exec_instr (CheckPatient p) r t c =
     Some (case patients (st c) p of
             None \<Rightarrow> t\<lparr>cont := [Unlock], ret := Return (Some (ErrNew ''patient not found''))\<rparr>
           | Some _ \<Rightarrow> t\<lparr>cont := r\<rparr>, c)"
| "exec_instr (CheckDoctor d) r t c =
     Some (case doctors (st c) d of
             None \<Rightarrow> t\<lparr>cont := [Unlock], ret := Return (Some (ErrNew ''doctor not found''))\<rparr>
           | Some _ \<Rightarrow> t\<lparr>cont := r\<rparr>, c)"
| "exec_instr (SetSelection p d) r t c =
     Some (t\<lparr>cont := r\<rparr>, c\<lparr>st := (st c)\<lparr>selections := (selections (st c))(p \<mapsto> d)\<rparr>\<rparr>)"
| "exec_instr (Go_persistSelections es w) r t c =
     Some (t\<lparr>cont := r\<rparr>,
           c\<lparr>st := (st c)\<lparr>spawned := Suc (spawned (st c))\<rparr>,
             threads := threads c @ [start (persistSelections_code es w)]\<rparr>)"
| "exec_instr (RangeSubs d cs) r t c = Some (t\<lparr>cont := r\<rparr>, c)"
| "exec_instr (TrySend ch) r t c =
     Some (if closed (chans (st c) ch)
           then (t\<lparr>cont := [Unlock], ret := Panic ''send on closed channel''\<rparr>, c)
           else (t\<lparr>cont := r\<rparr>,
                 if buf (chans (st c) ch) < cap (chans (st c) ch)
                 then c\<lparr>st := (st c)\<lparr>chans := (chans (st c))
                        (ch := (chans (st c) ch)\<lparr>buf := Suc (buf (chans (st c) ch))\<rparr>)\<rparr>\<rparr>
                 else c))"
| "exec_instr (Snapshot es) r t c =
     Some (t\<lparr>cont := r, local_arr := map (\<lambda>(pid, did). \<lparr>PatientID = pid, DoctorID = did\<rparr>) es\<rparr>, c)"
| "exec_instr (WriteFile w) r t c =
     Some (t\<lparr>cont := r\<rparr>,
           c\<lparr>st := (st c)\<lparr>disk := (case w of Written \<Rightarrow> Content (local_arr t) | WriteFailed f \<Rightarrow> f)\<rparr>\<rparr>)"

definition exec :: "nat \<Rightarrow> config \<Rightarrow> config option" where
  "exec i c =
     (if i < length (threads c)
      then (case cont (threads c ! i) of
              [] \<Rightarrow> None
            | ins # r \<Rightarrow>
                (case exec_instr ins r (threads c ! i) c of
                   None \<Rightarrow> None
                 | Some (t', c') \<Rightarrow> Some (c'\<lparr>threads := (threads c')[i := t']\<rparr>)))
      else None)"

definition next_instr :: "config \<Rightarrow> nat \<Rightarrow> instr option" where
  "next_instr c i =
     (if i < length (threads c)
      then (case cont (threads c ! i) of [] \<Rightarrow> None | ins # _ \<Rightarrow> Some ins)
      else None)"

text \<open>
  A run follows a schedule: the goroutines that take the next step, in order. The
  order that a \<open>range\<close> loop was given has to be an order of the map when the loop
  starts (\<open>scan_ok\<close>). At the start the mutex is free.
\<close>

definition scan_ok :: "config \<Rightarrow> nat \<Rightarrow> bool" where
  "scan_ok c i =
     (case cont (threads c ! i) of
        RangeSubs d cs # _ \<Rightarrow> range_set cs (subs_of (st c) d)
      | Snapshot es # _ \<Rightarrow> range_map es (selections (st c))
      | _ \<Rightarrow> True)"

fun run :: "nat list \<Rightarrow> config \<Rightarrow> config option" where
  "run [] c = Some c"
| "run (i # sched) c =
     (if i < length (threads c) \<and> scan_ok c i
      then (case exec i c of None \<Rightarrow> None | Some c' \<Rightarrow> run sched c')
      else None)"

definition init :: "Store \<Rightarrow> thread list \<Rightarrow> config" where
  "init s ts = \<lparr>mu_writer = False, mu_readers = 0, st = s, threads = ts\<rparr>"

text \<open>
  The invariant of the mutex. A goroutine holds nothing, holds the write lock or holds a
  read lock, and what it has still to run tells which: \<open>in_mode m k\<close> says that
  \<open>k\<close> is the rest of a body in mode \<open>m\<close>, every statement inside the section where
  the body has it. The mutex has a writer exactly when one goroutine is in write mode,
  its reader count is the number of goroutines in read mode, and a writer excludes
  readers. \<open>next_mode\<close> and \<open>mutex_move\<close> describe one step.
\<close>

datatype mode = Unheld | Writing | Reading

datatype cls = Acquire mode | Release mode | Inside mode

fun cls_of :: "instr \<Rightarrow> cls" where
  "cls_of Lock = Acquire Writing"
| "cls_of Unlock = Release Writing"
| "cls_of RLock = Acquire Reading"
| "cls_of RUnlock = Release Reading"
| "cls_of (Snapshot es) = Inside Reading"
| "cls_of (WriteFile w) = Inside Reading"
| "cls_of _ = Inside Writing"

fun in_mode :: "mode \<Rightarrow> instr list \<Rightarrow> bool" where
  "in_mode m [] = (m = Unheld)"
| "in_mode m (i # r) =
     (case cls_of i of
        Acquire m' \<Rightarrow> m = Unheld \<and> in_mode m' r
      | Release m' \<Rightarrow> m = m' \<and> in_mode Unheld r
      | Inside m' \<Rightarrow> m = m' \<and> in_mode m r)"

definition count_mode :: "mode \<Rightarrow> thread list \<Rightarrow> nat" where
  "count_mode m ts = length (filter (\<lambda>t. in_mode m (cont t)) ts)"

definition mutex_inv :: "config \<Rightarrow> bool" where
  "mutex_inv c \<longleftrightarrow>
     (\<forall>t \<in> set (threads c). \<exists>m. in_mode m (cont t)) \<and>
     count_mode Writing (threads c) = (if mu_writer c then 1 else 0) \<and>
     count_mode Reading (threads c) = mu_readers c \<and>
     (mu_writer c \<longrightarrow> mu_readers c = 0)"

definition next_mode :: "instr \<Rightarrow> mode \<Rightarrow> mode" where
  "next_mode ins m = (case cls_of ins of Acquire m' \<Rightarrow> m' | Release m' \<Rightarrow> Unheld | Inside m' \<Rightarrow> m)"

definition mutex_move :: "mode \<Rightarrow> mode \<Rightarrow> config \<Rightarrow> config \<Rightarrow> bool" where
  "mutex_move m m' c c' \<longleftrightarrow>
     m = m' \<and> mu_writer c' = mu_writer c \<and> mu_readers c' = mu_readers c \<or>
     m = Unheld \<and> m' = Writing \<and> \<not> mu_writer c \<and> mu_readers c = 0 \<and>
       mu_writer c' \<and> mu_readers c' = 0 \<or>
     m = Writing \<and> m' = Unheld \<and> \<not> mu_writer c' \<and> mu_readers c' = mu_readers c \<or>
     m = Unheld \<and> m' = Reading \<and> \<not> mu_writer c \<and> \<not> mu_writer c' \<and>
       mu_readers c' = Suc (mu_readers c) \<or>
     m = Reading \<and> m' = Unheld \<and> mu_writer c' = mu_writer c \<and>
       mu_readers c' = mu_readers c - 1"

section \<open>Example stores\<close>

text \<open>
  The scenario of the specification: patient 1 and doctor 10 in the seed, with a second
  patient and a second doctor. \<open>store0\<close> is the store right after startup with no
  selections file. In \<open>store1\<close> doctor 10 has a subscriber (channel 0), doctor 20 has
  a subscriber (channel 1), and patient 1 has selected doctor 20, which left a signal
  pending on channel 1. \<open>store2\<close> is the store after a startup that found the
  snapshot \<open>stale\<close>, which names a patient 999 that the seed does not have;
  \<open>store3\<close> is the store after a startup that found the snapshot \<open>snap\<close>.
\<close>

definition patient1 :: Patient where
  "patient1 = \<lparr>Patient.ID = 1, Patient.Login = ''p1'', Patient.Password = ''a'', Name = ''Ann''\<rparr>"

definition patient2 :: Patient where
  "patient2 = \<lparr>Patient.ID = 2, Patient.Login = ''p2'', Patient.Password = ''b'', Name = ''Bob''\<rparr>"

definition doctor10 :: Doctor where
  "doctor10 = \<lparr>ID = 10, Login = ''d1'', Password = ''c'', First = ''Eve'', Last = ''Roe'',
     Middle = '''', Special = ''ENT''\<rparr>"

definition doctor20 :: Doctor where
  "doctor20 = \<lparr>ID = 20, Login = ''d2'', Password = ''d'', First = ''Joe'', Last = ''Poe'',
     Middle = '''', Special = ''GP''\<rparr>"

definition seed0 :: Seed where
  "seed0 = \<lparr>Patients = [patient1, patient2], Doctors = [doctor10, doctor20]\<rparr>"

definition store0 :: Store where
  "store0 = \<lparr>patients = [1 \<mapsto> patient1, 2 \<mapsto> patient2],
              doctors = [10 \<mapsto> doctor10, 20 \<mapsto> doctor20],
              selections = Map.empty,
              subs = [10 \<mapsto> {}, 20 \<mapsto> {}],
              chans = (\<lambda>_. \<lparr>buf = 0, cap = 0, closed = False\<rparr>),
              nextch = 0,
              disk = NoFile,
              spawned = 0\<rparr>"

definition store1 :: Store where
  "store1 = \<lparr>patients = [1 \<mapsto> patient1, 2 \<mapsto> patient2],
              doctors = [10 \<mapsto> doctor10, 20 \<mapsto> doctor20],
              selections = [1 \<mapsto> 20],
              subs = [10 \<mapsto> {0}, 20 \<mapsto> {1}],
              chans = (\<lambda>_. \<lparr>buf = 0, cap = 0, closed = False\<rparr>)
                        (0 := \<lparr>buf = 0, cap = 1, closed = False\<rparr>,
                         1 := \<lparr>buf = 1, cap = 1, closed = False\<rparr>),
              nextch = 2,
              disk = NoFile,
              spawned = 1\<rparr>"

definition stale :: "Selection list" where
  "stale = [\<lparr>PatientID = 999, DoctorID = 10\<rparr>, \<lparr>PatientID = 1, DoctorID = 10\<rparr>]"

definition store2 :: Store where
  "store2 = \<lparr>patients = [1 \<mapsto> patient1, 2 \<mapsto> patient2],
              doctors = [10 \<mapsto> doctor10, 20 \<mapsto> doctor20],
              selections = [999 \<mapsto> 10, 1 \<mapsto> 10],
              subs = [10 \<mapsto> {}, 20 \<mapsto> {}],
              chans = (\<lambda>_. \<lparr>buf = 0, cap = 0, closed = False\<rparr>),
              nextch = 0,
              disk = Content stale,
              spawned = 0\<rparr>"

definition snap :: "Selection list" where
  "snap = [\<lparr>PatientID = 2, DoctorID = 20\<rparr>, \<lparr>PatientID = 1, DoctorID = 10\<rparr>]"

definition store3 :: Store where
  "store3 = \<lparr>patients = [1 \<mapsto> patient1, 2 \<mapsto> patient2],
              doctors = [10 \<mapsto> doctor10, 20 \<mapsto> doctor20],
              selections = [2 \<mapsto> 20, 1 \<mapsto> 10],
              subs = [10 \<mapsto> {}, 20 \<mapsto> {}],
              chans = (\<lambda>_. \<lparr>buf = 0, cap = 0, closed = False\<rparr>),
              nextch = 0,
              disk = Content snap,
              spawned = 0\<rparr>"

text \<open>
  \<open>conf0\<close>: one call \<open>SelectDoctor(1, 10)\<close> about to start on \<open>store1\<close>, with the
  mutex free.
\<close>

definition conf0 :: config where
  "conf0 = init store1 [start (SelectDoctor_code [0] [(1, 10)] Written 1 10)]"

section \<open>Auxiliary facts\<close>

subsection \<open>Maps and scans\<close>

lemma fold_upd_map_of:
  "fold (\<lambda>x m. m(f x \<mapsto> g x)) xs m0 = m0 ++ map_of (rev (map (\<lambda>x. (f x, g x)) xs))"
  by (induction xs arbitrary: m0) (auto simp: map_add_upd_left)

lemma dom_fold_upd: "dom (fold (\<lambda>x m. m(f x \<mapsto> g x)) xs m0) = dom m0 \<union> f ` set xs"
  by (induction xs arbitrary: m0) auto

lemma map_of_rev_distinct: "distinct (map fst es) \<Longrightarrow> map_of (rev es) = map_of es"
  by (rule map_of_inject_set [THEN iffD2]) (simp_all add: rev_map [symmetric])

lemma range_map_mem: "range_map es m \<Longrightarrow> (k, v) \<in> set es \<longleftrightarrow> m k = Some v"
  by (auto simp: range_map_def)

lemma PatientsOfDoctor_loop_eq:
  "PatientsOfDoctor_loop es ps d res =
     res @ List.map_filter (\<lambda>(pid, did). if did = d then ps pid else None) es"
  by (induction es ps d res rule: PatientsOfDoctor_loop.induct)
     (auto simp: List.map_filter_simps split: option.splits)

lemma set_PatientsOfDoctor_loop:
  "set (PatientsOfDoctor_loop es ps d res) =
     set res \<union> {p. \<exists>pid. (pid, d) \<in> set es \<and> ps pid = Some p}"
  by (induction es ps d res rule: PatientsOfDoctor_loop.induct)
     (auto split: option.splits)

lemma set_PatientsOfDoctor:
  "range_map es (selections s) \<Longrightarrow>
   set (PatientsOfDoctor es s d) =
     {p. \<exists>pid. selections s pid = Some d \<and> patients s pid = Some p}"
  by (simp add: PatientsOfDoctor_def set_PatientsOfDoctor_loop range_map_mem)

lemma distinct_PatientsOfDoctor_loop:
  "distinct (map fst es) \<Longrightarrow> distinct res \<Longrightarrow>
   (\<forall>i p. ps i = Some p \<longrightarrow> Patient.ID p = i) \<Longrightarrow>
   (\<forall>p \<in> set res. Patient.ID p \<notin> fst ` set es) \<Longrightarrow>
   distinct (PatientsOfDoctor_loop es ps d res)"
proof (induction es ps d res rule: PatientsOfDoctor_loop.induct)
  case (1 ps doctorID res)
  then show ?case by simp
next
  case (2 pid did es ps doctorID res)
  show ?case
    unfolding PatientsOfDoctor_loop.simps
  proof (rule "2.IH")
    show "distinct (map fst es)" using "2.prems" by simp
    show "distinct (if did = doctorID then case ps pid of None \<Rightarrow> res | Some p \<Rightarrow> res @ [p] else res)"
      using "2.prems" by (auto split: option.splits)
    show "\<forall>i p. ps i = Some p \<longrightarrow> Patient.ID p = i" using "2.prems" by simp
    show "\<forall>p\<in>set (if did = doctorID then case ps pid of None \<Rightarrow> res | Some p \<Rightarrow> res @ [p] else res).
       Patient.ID p \<notin> fst ` set es"
      using "2.prems" by (auto split: option.splits)
  qed
qed

lemma PatientsOfDoctor_loop_skip:
  "PatientsOfDoctor_loop (filter (\<lambda>e. fst e \<in> dom ps) es) ps d res =
   PatientsOfDoctor_loop es ps d res"
  by (induction es ps d res rule: PatientsOfDoctor_loop.induct) (auto split: option.splits)

subsection \<open>The publish loop\<close>

lemma publish_closed: "closed (snd (publish cs h) ch) = closed (h ch)"
  by (induction cs h rule: publish.induct) auto

lemma publish_cap: "cap (snd (publish cs h) ch) = cap (h ch)"
  by (induction cs h rule: publish.induct) auto

lemma publish_frame: "ch \<notin> set cs \<Longrightarrow> snd (publish cs h) ch = h ch"
  by (induction cs h rule: publish.induct) auto

lemma publish_ok: "\<forall>ch \<in> set cs. \<not> closed (h ch) \<Longrightarrow> fst (publish cs h) = None"
  by (induction cs h rule: publish.induct) auto

lemma publish_buf:
  "distinct cs \<Longrightarrow> \<forall>c \<in> set cs. \<not> closed (h c) \<Longrightarrow> ch \<in> set cs \<Longrightarrow>
   buf (snd (publish cs h) ch) = (if buf (h ch) < cap (h ch) then Suc (buf (h ch)) else buf (h ch))"
proof (induction cs h rule: publish.induct)
  case (1 h)
  then show ?case by simp
next
  case (2 c cs h)
  show ?case
  proof (cases "ch = c")
    case True
    then have "ch \<notin> set cs" using "2.prems" by simp
    then show ?thesis using True "2.prems" by (simp add: publish_frame)
  next
    case False
    then show ?thesis using "2.prems" "2.IH" by auto
  qed
qed

lemma publish_buf_le_aux:
  "buf (h ch) \<le> cap (h ch) \<Longrightarrow>
   buf (snd (publish cs h) ch) \<le> cap (snd (publish cs h) ch)"
  by (induction cs h rule: publish.induct) auto

lemma publish_buf_le:
  "buf (h ch) \<le> cap (h ch) \<Longrightarrow> buf (snd (publish cs h) ch) \<le> cap (h ch)"
  using publish_buf_le_aux [of h ch cs] by (simp add: publish_cap)

subsection \<open>What each operation does to each field\<close>

lemma SelectDoctor_found:
  "patients s patientID = Some p \<Longrightarrow> doctors s doctorID = Some d \<Longrightarrow>
   SelectDoctor cs s patientID doctorID =
     ((case fst (publish cs (chans s)) of None \<Rightarrow> Return None | Some msg \<Rightarrow> Panic msg),
      s\<lparr>selections := (selections s)(patientID \<mapsto> doctorID),
        spawned := Suc (spawned s),
        chans := snd (publish cs (chans s))\<rparr>)"
  by (simp add: SelectDoctor_def split: prod.splits)

lemma SelectDoctor_fst:
  "fst (SelectDoctor cs s p d) =
     (case patients s p of
        None \<Rightarrow> Return (Some (ErrNew ''patient not found''))
      | Some _ \<Rightarrow>
          (case doctors s d of
             None \<Rightarrow> Return (Some (ErrNew ''doctor not found''))
           | Some _ \<Rightarrow>
               (case fst (publish cs (chans s)) of None \<Rightarrow> Return None
                | Some msg \<Rightarrow> Panic msg)))"
  by (simp add: SelectDoctor_def split: option.splits prod.splits)

lemma SelectDoctor_dir [simp]:
  "patients (snd (SelectDoctor cs s p d)) = patients s"
  "doctors (snd (SelectDoctor cs s p d)) = doctors s"
  "subs (snd (SelectDoctor cs s p d)) = subs s"
  "nextch (snd (SelectDoctor cs s p d)) = nextch s"
  "disk (snd (SelectDoctor cs s p d)) = disk s"
  by (simp_all add: SelectDoctor_def split: option.splits prod.splits)

lemma SelectDoctor_selections:
  "selections (snd (SelectDoctor cs s p d)) =
     (if p \<in> dom (patients s) \<and> d \<in> dom (doctors s) then (selections s)(p \<mapsto> d)
      else selections s)"
  by (auto simp: SelectDoctor_def split: option.splits prod.splits)

lemma SelectDoctor_subs_of [simp]: "subs_of (snd (SelectDoctor cs s p d)) d' = subs_of s d'"
  by (simp add: subs_of_def)

lemma SelectDoctor_chans:
  "chans (snd (SelectDoctor cs s p d)) =
     (if p \<in> dom (patients s) \<and> d \<in> dom (doctors s) then snd (publish cs (chans s))
      else chans s)"
  by (auto simp: SelectDoctor_def split: option.splits prod.splits)

lemma SelectDoctor_closed [simp]:
  "closed (chans (snd (SelectDoctor cs s p d)) ch) = closed (chans s ch)"
  by (simp add: SelectDoctor_chans publish_closed)

lemma SelectDoctor_cap [simp]:
  "cap (chans (snd (SelectDoctor cs s p d)) ch) = cap (chans s ch)"
  by (simp add: SelectDoctor_chans publish_cap)

lemma SelectDoctor_buf_le:
  "buf (chans s ch) \<le> cap (chans s ch) \<Longrightarrow>
   buf (chans (snd (SelectDoctor cs s p d)) ch) \<le> cap (chans s ch)"
  by (simp add: SelectDoctor_chans publish_buf_le)

lemma Subscribe_dir [simp]:
  "patients (snd (Subscribe d s)) = patients s"
  "doctors (snd (Subscribe d s)) = doctors s"
  "selections (snd (Subscribe d s)) = selections s"
  "disk (snd (Subscribe d s)) = disk s"
  "spawned (snd (Subscribe d s)) = spawned s"
  by (simp_all add: Subscribe_def Let_def split: option.splits)

lemma Subscribe_hub [simp]:
  "subs_of (snd (Subscribe d s)) d' = (if d' = d then insert (nextch s) (subs_of s d) else subs_of s d')"
  "chans (snd (Subscribe d s)) = (chans s)(nextch s := \<lparr>buf = 0, cap = 1, closed = False\<rparr>)"
  "nextch (snd (Subscribe d s)) = Suc (nextch s)"
  "fst (Subscribe d s) = (nextch s, cancel d (nextch s))"
  by (auto simp: Subscribe_def Let_def subs_of_def split: option.splits)

lemma cancel_dir [simp]:
  "patients (snd (cancel d ch s)) = patients s"
  "doctors (snd (cancel d ch s)) = doctors s"
  "selections (snd (cancel d ch s)) = selections s"
  "nextch (snd (cancel d ch s)) = nextch s"
  "disk (snd (cancel d ch s)) = disk s"
  "spawned (snd (cancel d ch s)) = spawned s"
  by (simp_all add: cancel_def Let_def split: option.splits)

lemma cancel_hub [simp]:
  "subs_of (snd (cancel d ch s)) d' = (if d' = d then subs_of s d - {ch} else subs_of s d')"
  "chans (snd (cancel d ch s)) = (chans s)(ch := (chans s ch)\<lparr>closed := True\<rparr>)"
  "fst (cancel d ch s) = (if closed (chans s ch) then Panic ''close of closed channel'' else Return ())"
  by (auto simp: cancel_def Let_def subs_of_def split: option.splits)

lemma cancel_closed_noop:
  assumes "closed (chans s ch)" "ch \<notin> subs_of s doctorID"
  shows "cancel doctorID ch s = (Panic ''close of closed channel'', s)"
proof (cases "subs s doctorID")
  case None
  then show ?thesis using assms(1) by (simp add: cancel_def)
next
  case (Some cs)
  have a: "cs - {ch} = cs" using assms(2) Some by (simp add: subs_of_def)
  have b: "(subs s)(doctorID \<mapsto> cs) = subs s" using Some by (rule map_upd_triv)
  have c: "s\<lparr>subs := (subs s)(doctorID \<mapsto> cs - {ch})\<rparr> = s"
    unfolding a b by simp
  have "cancel doctorID ch s =
      (let s1 = s\<lparr>subs := (subs s)(doctorID \<mapsto> cs - {ch})\<rparr>
       in if closed (chans s1 ch) then (Panic ''close of closed channel'', s1)
          else (Return (), s1\<lparr>chans := (chans s1)(ch := (chans s1 ch)\<lparr>closed := True\<rparr>)\<rparr>))"
    unfolding cancel_def Some by simp
  then show ?thesis unfolding c using assms(1) by simp
qed

lemma recv_dir [simp]:
  "patients (snd (recv ch s)) = patients s"
  "doctors (snd (recv ch s)) = doctors s"
  "selections (snd (recv ch s)) = selections s"
  "subs (snd (recv ch s)) = subs s"
  "nextch (snd (recv ch s)) = nextch s"
  "disk (snd (recv ch s)) = disk s"
  "spawned (snd (recv ch s)) = spawned s"
  by (simp_all add: recv_def Let_def)

lemma recv_chans:
  "chans (snd (recv ch s)) =
     (if 0 < buf (chans s ch) then (chans s)(ch := (chans s ch)\<lparr>buf := buf (chans s ch) - 1\<rparr>)
      else chans s)"
  "fst (recv ch s) = (0 < buf (chans s ch) \<or> closed (chans s ch))"
  by (auto simp: recv_def Let_def)

lemma recv_subs_of [simp]: "subs_of (snd (recv ch s)) d = subs_of s d"
  by (simp add: subs_of_def)

lemma persistSelections_dir [simp]:
  "patients (persistSelections es w s) = patients s"
  "doctors (persistSelections es w s) = doctors s"
  "selections (persistSelections es w s) = selections s"
  "subs (persistSelections es w s) = subs s"
  "chans (persistSelections es w s) = chans s"
  "nextch (persistSelections es w s) = nextch s"
  "spawned (persistSelections es w s) = spawned s"
  by (simp_all add: persistSelections_def Let_def)

lemma persist_subs_of [simp]: "subs_of (persistSelections es w s\<lparr>spawned := n\<rparr>) d = subs_of s d"
  by (simp add: subs_of_def)

lemma NewStore_fields:
  assumes "NewStore (Content sd) sel = Inr s0"
  shows "patients s0 = fold (\<lambda>p m. m(Patient.ID p \<mapsto> p)) (Patients sd) Map.empty"
    and "doctors s0 = fold (\<lambda>d m. m(Doctor.ID d \<mapsto> d)) (Doctors sd) Map.empty"
    and "subs s0 = fold (\<lambda>d m. m(Doctor.ID d \<mapsto> {})) (Doctors sd) Map.empty"
    and "selections s0 =
           (case sel of Content arr \<Rightarrow> fold (\<lambda>x m. m(PatientID x \<mapsto> DoctorID x)) arr Map.empty
            | _ \<Rightarrow> Map.empty)"
    and "nextch s0 = 0" and "spawned s0 = 0" and "disk s0 = sel"
  using assms by (auto simp: NewStore_def loadSelections_def Let_def split: stored.splits)

subsection \<open>Invariants of the running server\<close>

lemma hub_okD:
  "hub_ok s \<Longrightarrow> ch \<in> subs_of s d \<Longrightarrow>
   ch < nextch s \<and> \<not> closed (chans s ch) \<and> cap (chans s ch) = 1 \<and> buf (chans s ch) \<le> 1"
  unfolding hub_ok_def by blast

lemma hub_ok_SelectDoctor: "hub_ok s \<Longrightarrow> hub_ok (snd (SelectDoctor cs s p d))"
  unfolding hub_ok_def
  by (simp del: One_nat_def) (metis SelectDoctor_buf_le)

lemma hub_ok_Subscribe: "hub_ok s \<Longrightarrow> hub_ok (snd (Subscribe d s))"
  unfolding hub_ok_def by (auto simp: less_Suc_eq split: if_splits)

lemma hub_ok_cancel: "hub_ok s \<Longrightarrow> ch \<in> subs_of s d \<Longrightarrow> hub_ok (snd (cancel d ch s))"
  unfolding hub_ok_def by (auto split: if_splits)

lemma hub_ok_cancel_closed:
  assumes "hub_ok s" and "closed (chans s ch)"
  shows "hub_ok (snd (cancel d ch s))"
proof -
  have "ch \<notin> subs_of s d'" for d'
    using hub_okD [OF assms(1), of ch d'] assms(2) by blast
  then have "cancel d ch s = (Panic ''close of closed channel'', s)"
    using assms(2) by (intro cancel_closed_noop)
  then show ?thesis using assms(1) by simp
qed

lemma hub_ok_recv: "hub_ok s \<Longrightarrow> hub_ok (snd (recv ch s))"
  unfolding hub_ok_def by (auto simp: recv_chans)

lemma hub_ok_persist: "hub_ok s \<Longrightarrow> hub_ok (persistSelections es w s\<lparr>spawned := n\<rparr>)"
  unfolding hub_ok_def by simp

lemma step_hub_ok: "step s s' \<Longrightarrow> hub_ok s \<Longrightarrow> hub_ok s'"
  by (induction rule: step.induct)
     (auto simp: hub_ok_SelectDoctor hub_ok_Subscribe hub_ok_cancel hub_ok_cancel_closed
        hub_ok_recv hub_ok_persist)

lemma step_closed:
  "step s s' \<Longrightarrow> ch < nextch s \<Longrightarrow> closed (chans s ch) \<Longrightarrow>
   ch < nextch s' \<and> closed (chans s' ch)"
  by (induction rule: step.induct) (auto simp: recv_chans)

lemma steps_closed:
  "step\<^sup>*\<^sup>* s s' \<Longrightarrow> hub_ok s \<Longrightarrow> ch < nextch s \<Longrightarrow> closed (chans s ch) \<Longrightarrow>
   hub_ok s' \<and> ch < nextch s' \<and> closed (chans s' ch)"
  by (induction rule: rtranclp_induct) (auto dest: step_closed step_hub_ok)

lemma step_ref_ok: "step s s' \<Longrightarrow> ref_ok s \<Longrightarrow> ref_ok s'"
  by (induction rule: step.induct)
     (auto simp: ref_ok_def SelectDoctor_selections split: if_splits)

lemma steps_ref_ok: "step\<^sup>*\<^sup>* s s' \<Longrightarrow> ref_ok s \<Longrightarrow> ref_ok s'"
  by (induction rule: rtranclp_induct) (auto intro: step_ref_ok)

lemma NewStore_ref_ok:
  assumes "NewStore (Content sd) sel = Inr s0"
    and "\<forall>arr. sel = Content arr \<longrightarrow>
           (\<forall>x \<in> set arr. PatientID x \<in> Patient.ID ` set (Patients sd) \<and>
                          DoctorID x \<in> Doctor.ID ` set (Doctors sd))"
  shows "ref_ok s0"
proof (cases sel)
  case NoFile
  then show ?thesis using NewStore_fields(4) [OF assms(1)]
    by (simp add: ref_ok_def)
next
  case Malformed
  then show ?thesis using NewStore_fields(4) [OF assms(1)]
    by (simp add: ref_ok_def)
next
  case (Content arr)
  have sel: "selections s0 = map_of (rev (map (\<lambda>x. (PatientID x, DoctorID x)) arr))"
    and dir: "dom (patients s0) = Patient.ID ` set (Patients sd)"
             "dom (doctors s0) = Doctor.ID ` set (Doctors sd)"
    using NewStore_fields(1,2,4) [OF assms(1)] Content
    by (simp_all add: fold_upd_map_of [of PatientID] dom_fold_upd)
  show ?thesis
    unfolding ref_ok_def
  proof (intro allI impI)
    fix pid did assume "selections s0 pid = Some did"
    then have "(pid, did) \<in> set (map (\<lambda>x. (PatientID x, DoctorID x)) arr)"
      unfolding sel by (auto dest: map_of_SomeD)
    then obtain x where "x \<in> set arr" "pid = PatientID x" "did = DoctorID x" by auto
    then show "pid \<in> dom (patients s0) \<and> did \<in> dom (doctors s0)"
      using assms(2) Content unfolding dir by blast
  qed
qed

lemma SelectDoctor_returns:
  assumes "hub_ok s" "range_set cs (subs_of s doctorID)"
    "patients s patientID = Some p" "doctors s doctorID = Some d"
  shows "fst (SelectDoctor cs s patientID doctorID) = Return None"
proof -
  have "\<forall>ch \<in> set cs. \<not> closed (chans s ch)"
    using assms(1,2) by (auto simp: hub_ok_def range_set_def)
  then have "fst (publish cs (chans s)) = None" by (rule publish_ok)
  then show ?thesis using assms(3,4) by (simp add: SelectDoctor_found)
qed

lemma SelectDoctor_signal:
  assumes "hub_ok s" "range_set cs (subs_of s doctorID)" "ch \<in> subs_of s doctorID"
    "patients s patientID = Some p" "doctors s doctorID = Some d"
  shows "buf (chans (snd (SelectDoctor cs s patientID doctorID)) ch) = 1"
proof -
  have open_cs: "\<forall>c \<in> set cs. \<not> closed (chans s c)" and dist: "distinct cs" and mem: "ch \<in> set cs"
    using assms(1,2,3) by (auto simp: hub_ok_def range_set_def)
  have c: "cap (chans s ch) = 1" "buf (chans s ch) \<le> 1"
    using assms(1,3) by (auto simp: hub_ok_def)
  have "buf (snd (publish cs (chans s)) ch) =
      (if buf (chans s ch) < cap (chans s ch) then Suc (buf (chans s ch)) else buf (chans s ch))"
    using dist open_cs mem by (rule publish_buf)
  then have "buf (snd (publish cs (chans s)) ch) = 1" using c by auto
  then show ?thesis using assms(4,5) by (simp add: SelectDoctor_found)
qed

lemma SelectDoctor_frame:
  assumes "hub_ok s" "range_set cs (subs_of s doctorID)" "ch \<notin> subs_of s doctorID"
  shows "chans (snd (SelectDoctor cs s patientID doctorID)) ch = chans s ch"
  using assms by (simp add: SelectDoctor_chans publish_frame range_set_def)

lemma burst_effect:
  assumes "hub_ok s" and "doctors s doctorID = Some d"
    and "\<forall>c \<in> set calls. range_set (fst c) (subs_of s doctorID) \<and> snd c \<in> dom (patients s)"
  shows "fst (burst calls doctorID s) = replicate (length calls) (Return None) \<and>
         hub_ok (snd (burst calls doctorID s)) \<and>
         subs (snd (burst calls doctorID s)) = subs s \<and>
         (\<forall>ch \<in> subs_of s doctorID.
            buf (chans (snd (burst calls doctorID s)) ch) =
              (if calls = [] then buf (chans s ch) else 1))"
  using assms
proof (induction calls arbitrary: s)
  case Nil
  then show ?case by simp
next
  case (Cons c calls)
  obtain cs pid where c: "c = (cs, pid)" by (cases c)
  let ?s1 = "snd (SelectDoctor cs s pid doctorID)"
  from Cons.prems(3) c obtain p where cs: "range_set cs (subs_of s doctorID)"
    and p: "patients s pid = Some p" by auto
  have r1: "fst (SelectDoctor cs s pid doctorID) = Return None"
    using Cons.prems(1) cs p Cons.prems(2) by (rule SelectDoctor_returns)
  have h1: "hub_ok ?s1" using Cons.prems(1) by (rule hub_ok_SelectDoctor)
  have d1: "doctors ?s1 doctorID = Some d" using Cons.prems(2) by simp
  have c1: "\<forall>c \<in> set calls. range_set (fst c) (subs_of ?s1 doctorID) \<and> snd c \<in> dom (patients ?s1)"
    using Cons.prems(3) by simp
  note IH = Cons.IH [OF h1 d1 c1]
  have b1: "\<forall>ch \<in> subs_of s doctorID. buf (chans ?s1 ch) = 1"
    using SelectDoctor_signal [OF Cons.prems(1) cs _ p Cons.prems(2)] by blast
  have unf: "burst (c # calls) doctorID s =
      (fst (SelectDoctor cs s pid doctorID) # fst (burst calls doctorID ?s1),
       snd (burst calls doctorID ?s1))"
    by (simp add: c split: prod.splits)
  show ?case
    unfolding unf using IH r1 b1 by simp
qed

lemma fold_upd_key:
  "fold (\<lambda>p m. m(f p \<mapsto> p)) ps m0 k = Some v \<Longrightarrow> f v = k \<or> m0 k = Some v"
proof (induction ps arbitrary: m0)
  case Nil
  then show ?case by simp
next
  case (Cons a ps)
  from Cons.prems have "fold (\<lambda>p m. m(f p \<mapsto> p)) ps (m0(f a \<mapsto> a)) k = Some v"
    by (simp del: fun_upd_apply)
  from Cons.IH [OF this] show ?case by (auto split: if_splits)
qed

lemma fold_upd_const:
  "fold (\<lambda>d m. m(f d \<mapsto> c)) ds m0 k = Some v \<Longrightarrow> v = c \<or> m0 k = Some v"
proof (induction ds arbitrary: m0)
  case Nil
  then show ?case by simp
next
  case (Cons a ds)
  from Cons.prems have "fold (\<lambda>d m. m(f d \<mapsto> c)) ds (m0(f a \<mapsto> c)) k = Some v"
    by (simp del: fun_upd_apply)
  from Cons.IH [OF this] show ?case by (auto split: if_splits)
qed

lemma NewStore_dir_ok: "NewStore (Content sd) sel = Inr s0 \<Longrightarrow> dir_ok s0"
  unfolding dir_ok_def
  using fold_upd_key [of Patient.ID "Patients sd" Map.empty]
  by (auto simp: NewStore_fields(1))

lemma NewStore_hub_ok:
  assumes "NewStore (Content sd) sel = Inr s0"
  shows "hub_ok s0"
proof -
  have "subs_of s0 d = {}" for d
    using fold_upd_const [of Doctor.ID "{}" "Doctors sd" Map.empty d]
    by (auto simp: subs_of_def NewStore_fields(3) [OF assms] split: option.splits)
  then show ?thesis by (simp add: hub_ok_def)
qed

lemma step_dir_ok: "step s s' \<Longrightarrow> dir_ok s \<Longrightarrow> dir_ok s'"
  by (induction rule: step.induct) (simp_all add: dir_ok_def)

lemma reachable_ok:
  assumes "NewStore (Content sd) sel = Inr s0" and "step\<^sup>*\<^sup>* s0 s"
  shows "dir_ok s \<and> hub_ok s"
  using assms(2)
proof (induction rule: rtranclp_induct)
  case base
  show ?case using assms(1) by (simp add: NewStore_dir_ok NewStore_hub_ok)
next
  case (step y z)
  then show ?case by (simp add: step_dir_ok step_hub_ok)
qed

subsection \<open>The mutex\<close>

lemma in_mode_unique: "in_mode m k \<Longrightarrow> in_mode m' k \<Longrightarrow> m = m'"
  by (cases k) (auto split: cls.splits)

lemma in_mode_sends: "in_mode Writing (map TrySend cs @ [Unlock])"
  by (induction cs) simp_all

lemma in_mode_SelectDoctor_code: "in_mode Unheld (SelectDoctor_code cs es w p d)"
  by (simp add: SelectDoctor_code_def in_mode_sends)

lemma in_mode_persistSelections_code: "in_mode Unheld (persistSelections_code es w)"
  by (simp add: persistSelections_code_def)

lemma count_mode_update:
  "i < length ts \<Longrightarrow>
   count_mode m (ts[i := t']) + (if in_mode m (cont (ts ! i)) then 1 else 0) =
   count_mode m ts + (if in_mode m (cont t') then 1 else 0)"
  unfolding count_mode_def
proof (induction ts arbitrary: i)
  case Nil
  then show ?case by simp
next
  case (Cons a ts)
  then show ?case by (cases i) auto
qed

lemma count_mode_append: "count_mode m (ts @ us) = count_mode m ts + count_mode m us"
  by (simp add: count_mode_def)

lemma count_mode_pos: "t \<in> set ts \<Longrightarrow> in_mode m (cont t) \<Longrightarrow> 0 < count_mode m ts"
  unfolding count_mode_def by (auto simp: filter_empty_conv)

lemma count_mode_zero: "\<forall>t \<in> set ts. in_mode Unheld (cont t) \<Longrightarrow> k \<noteq> Unheld \<Longrightarrow> count_mode k ts = 0"
  unfolding count_mode_def by (auto simp: filter_empty_conv dest: in_mode_unique)

lemma exec_instr_shape:
  assumes "exec_instr ins r t c = Some (t', c')" and "in_mode m (ins # r)"
  shows "in_mode (next_mode ins m) (cont t')"
    and "\<exists>new. threads c' = threads c @ new \<and> (\<forall>u \<in> set new. in_mode Unheld (cont u))"
    and "mutex_move m (next_mode ins m) c c'"
  using assms
  by (cases ins; auto simp: next_mode_def mutex_move_def start_def in_mode_persistSelections_code
        split: if_splits option.splits)+

lemma mutex_inv_replace:
  assumes "mutex_inv c" and "i < length (threads c)"
    and "in_mode m (cont (threads c ! i))" and "in_mode m' (cont t')"
    and "\<forall>u \<in> set new. in_mode Unheld (cont u)"
    and "threads c' = (threads c @ new)[i := t']"
    and "mutex_move m m' c c'"
  shows "mutex_inv c'"
proof -
  let ?ts = "threads c"
  have th: "threads c' = ?ts[i := t'] @ new"
    using assms(2,6) by (simp add: list_update_append)
  have new0: "count_mode k new = 0" if "k \<noteq> Unheld" for k
    using assms(5) that by (rule count_mode_zero)
  have upd: "count_mode k (?ts[i := t']) + (if in_mode k (cont (?ts ! i)) then 1 else 0) =
      count_mode k ?ts + (if in_mode k (cont t') then 1 else 0)" for k
    using assms(2) by (rule count_mode_update)
  have old: "in_mode k (cont (?ts ! i)) \<longleftrightarrow> m = k" for k
    using assms(3) in_mode_unique by blast
  have nw: "in_mode k (cont t') \<longleftrightarrow> m' = k" for k
    using assms(4) in_mode_unique by blast
  have cW: "count_mode Writing (threads c') + (if m = Writing then 1 else 0) =
      count_mode Writing ?ts + (if m' = Writing then 1 else 0)"
    using upd [of Writing] by (simp add: th count_mode_append new0 old nw)
  have cR: "count_mode Reading (threads c') + (if m = Reading then 1 else 0) =
      count_mode Reading ?ts + (if m' = Reading then 1 else 0)"
    using upd [of Reading] by (simp add: th count_mode_append new0 old nw)
  have iW: "count_mode Writing ?ts = (if mu_writer c then 1 else 0)"
    and iR: "count_mode Reading ?ts = mu_readers c" and iX: "mu_writer c \<longrightarrow> mu_readers c = 0"
    using assms(1) by (simp_all add: mutex_inv_def)
  have mem: "?ts ! i \<in> set ?ts" using assms(2) by simp
  have posW: "m = Writing \<Longrightarrow> mu_writer c"
    using count_mode_pos [OF mem, of Writing] assms(3) iW by (auto split: if_splits)
  have posR: "m = Reading \<Longrightarrow> 0 < mu_readers c"
    using count_mode_pos [OF mem, of Reading] assms(3) iR by auto
  have all: "\<forall>u \<in> set (threads c'). \<exists>k. in_mode k (cont u)"
  proof
    fix u assume "u \<in> set (threads c')"
    then have "u \<in> set ?ts \<or> u = t' \<or> u \<in> set new"
      unfolding th using set_update_subset_insert [of ?ts i t'] by auto
    then show "\<exists>k. in_mode k (cont u)"
      using assms(1,4,5) by (auto simp: mutex_inv_def)
  qed
  have "count_mode Writing (threads c') = (if mu_writer c' then 1 else 0) \<and>
        count_mode Reading (threads c') = mu_readers c' \<and>
        (mu_writer c' \<longrightarrow> mu_readers c' = 0)"
    using assms(7) cW cR iW iR iX posW posR
    unfolding mutex_move_def by (auto split: if_splits)
  then show ?thesis using all by (simp add: mutex_inv_def)
qed

lemma exec_mutex_inv:
  assumes "mutex_inv c" and "i < length (threads c)" and "exec i c = Some c'"
  shows "mutex_inv c'"
proof -
  let ?t = "threads c ! i"
  from assms(3) obtain ins r t' c1 where k: "cont ?t = ins # r"
    and e: "exec_instr ins r ?t c = Some (t', c1)"
    and c': "c' = c1\<lparr>threads := (threads c1)[i := t']\<rparr>"
    by (auto simp: exec_def split: list.splits option.splits if_splits)
  have "?t \<in> set (threads c)" using assms(2) by simp
  then obtain m where m: "in_mode m (ins # r)" using assms(1) k by (auto simp: mutex_inv_def)
  from exec_instr_shape [OF e m] obtain new where
      1: "in_mode (next_mode ins m) (cont t')" and 2: "threads c1 = threads c @ new"
      and 3: "\<forall>u \<in> set new. in_mode Unheld (cont u)" and 4: "mutex_move m (next_mode ins m) c c1"
    by blast
  have 5: "threads c' = (threads c @ new)[i := t']" by (simp add: c' 2)
  have 6: "mutex_move m (next_mode ins m) c c'" using 4 by (simp add: c' mutex_move_def)
  have 7: "in_mode m (cont ?t)" using m k by simp
  show ?thesis using assms(1,2) 7 1 3 5 6 by (rule mutex_inv_replace)
qed

lemma run_mutex_inv: "run sched c = Some c' \<Longrightarrow> mutex_inv c \<Longrightarrow> mutex_inv c'"
proof (induction sched arbitrary: c)
  case Nil
  then show ?case by simp
next
  case (Cons i sched)
  from Cons.prems(1) obtain c1 where i: "i < length (threads c)" and e: "exec i c = Some c1"
    and r: "run sched c1 = Some c'"
    by (auto split: if_splits option.splits)
  have "mutex_inv c1" using Cons.prems(2) i e by (rule exec_mutex_inv)
  with r show ?case by (rule Cons.IH)
qed

lemma mutex_inv_init:
  assumes "\<forall>t \<in> set ts. in_mode Unheld (cont t)"
  shows "mutex_inv (init s ts)"
proof -
  have "count_mode k ts = 0" if "k \<noteq> Unheld" for k
    using assms that by (rule count_mode_zero)
  then show ?thesis using assms by (auto simp: mutex_inv_def init_def)
qed

lemma mutex_inv_next:
  assumes "mutex_inv c" and "next_instr c i = Some ins"
  shows "(cls_of ins = Inside Writing \<or> cls_of ins = Release Writing \<longrightarrow> mu_writer c) \<and>
         (cls_of ins = Inside Reading \<or> cls_of ins = Release Reading \<longrightarrow>
            \<not> mu_writer c \<and> 0 < mu_readers c)"
proof -
  from assms(2) obtain r where i: "i < length (threads c)" and k: "cont (threads c ! i) = ins # r"
    by (auto simp: next_instr_def split: if_splits list.splits)
  have mem: "threads c ! i \<in> set (threads c)" using i by simp
  then obtain m where m: "in_mode m (ins # r)" using assms(1) k by (auto simp: mutex_inv_def)
  have iW: "count_mode Writing (threads c) = (if mu_writer c then 1 else 0)"
    and iR: "count_mode Reading (threads c) = mu_readers c"
    and iX: "mu_writer c \<longrightarrow> mu_readers c = 0"
    using assms(1) by (simp_all add: mutex_inv_def)
  have W: "mu_writer c" if "cls_of ins = Inside Writing \<or> cls_of ins = Release Writing"
  proof -
    have "in_mode Writing (cont (threads c ! i))" using m k that by auto
    from count_mode_pos [OF mem this] iW show ?thesis by (auto split: if_splits)
  qed
  have R: "\<not> mu_writer c \<and> 0 < mu_readers c"
    if "cls_of ins = Inside Reading \<or> cls_of ins = Release Reading"
  proof -
    have "in_mode Reading (cont (threads c ! i))" using m k that by auto
    from count_mode_pos [OF mem this] iR iX show ?thesis by auto
  qed
  show ?thesis using W R by blast
qed

text \<open>
  Run alone from a free mutex, the statements of each body give what the definition of
  the function gives.
\<close>

lemma run_append:
  "run (a @ b) c = (case run a c of None \<Rightarrow> None | Some c1 \<Rightarrow> run b c1)"
  by (induction a arbitrary: c) (auto split: option.splits)

lemma run_sends:
  assumes "0 < length (threads c)" and "cont (threads c ! 0) = map TrySend cs @ [Unlock]"
    and "ret (threads c ! 0) = Return None" and "mu_writer c"
  shows "\<exists>n c'. run (replicate n 0) c = Some c' \<and> cont (threads c' ! 0) = [] \<and>
      ret (threads c' ! 0) =
        (case fst (publish cs (chans (st c))) of None \<Rightarrow> Return None | Some msg \<Rightarrow> Panic msg) \<and>
      st c' = (st c)\<lparr>chans := snd (publish cs (chans (st c)))\<rparr> \<and>
      \<not> mu_writer c' \<and> mu_readers c' = mu_readers c"
  using assms
proof (induction cs arbitrary: c)
  case Nil
  let ?c' = "c\<lparr>mu_writer := False, threads := (threads c)[0 := (threads c ! 0)\<lparr>cont := []\<rparr>]\<rparr>"
  have "run (replicate 1 0) c = Some ?c'"
    using Nil.prems by (simp add: exec_def scan_ok_def)
  moreover have "cont (threads ?c' ! 0) = []" "ret (threads ?c' ! 0) = Return None"
    "st ?c' = (st c)\<lparr>chans := snd (publish [] (chans (st c)))\<rparr>"
    "\<not> mu_writer ?c'" "mu_readers ?c' = mu_readers c"
    using Nil.prems by simp_all
  ultimately show ?case by (intro exI [of _ 1] exI [of _ ?c']) simp
next
  case (Cons ch cs)
  let ?t = "threads c ! 0"
  show ?case
  proof (cases "closed (chans (st c) ch)")
    case True
    let ?c1 = "c\<lparr>threads := (threads c)
        [0 := ?t\<lparr>cont := [Unlock], ret := Panic ''send on closed channel''\<rparr>]\<rparr>"
    let ?c' = "?c1\<lparr>mu_writer := False, threads := (threads ?c1)[0 := (threads ?c1 ! 0)\<lparr>cont := []\<rparr>]\<rparr>"
    have "run (replicate 2 0) c = Some ?c'"
      using Cons.prems True by (simp add: exec_def scan_ok_def numeral_2_eq_2)
    moreover have "cont (threads ?c' ! 0) = []"
      "ret (threads ?c' ! 0) = Panic ''send on closed channel''"
      "st ?c' = st c" "\<not> mu_writer ?c'" "mu_readers ?c' = mu_readers c"
      using Cons.prems by simp_all
    ultimately show ?thesis using True
      by (intro exI [of _ 2] exI [of _ ?c']) simp
  next
    case False
    let ?h = "if buf (chans (st c) ch) < cap (chans (st c) ch)
              then (chans (st c))(ch := (chans (st c) ch)\<lparr>buf := Suc (buf (chans (st c) ch))\<rparr>)
              else chans (st c)"
    let ?c1 = "c\<lparr>st := (st c)\<lparr>chans := ?h\<rparr>,
                 threads := (threads c)[0 := ?t\<lparr>cont := map TrySend cs @ [Unlock]\<rparr>]\<rparr>"
    have e: "exec 0 c = Some ?c1"
      using Cons.prems False by (auto simp: exec_def)
    have in_mode: "scan_ok c 0" using Cons.prems by (simp add: scan_ok_def)
    have p1: "0 < length (threads ?c1)" "cont (threads ?c1 ! 0) = map TrySend cs @ [Unlock]"
      "ret (threads ?c1 ! 0) = Return None" "mu_writer ?c1"
      using Cons.prems by simp_all
    from Cons.IH [OF p1] obtain n c' where n: "run (replicate n 0) ?c1 = Some c'"
      and r: "cont (threads c' ! 0) = []"
        "ret (threads c' ! 0) =
          (case fst (publish cs (chans (st ?c1))) of None \<Rightarrow> Return None | Some msg \<Rightarrow> Panic msg)"
        "st c' = (st ?c1)\<lparr>chans := snd (publish cs (chans (st ?c1)))\<rparr>"
        "\<not> mu_writer c'" "mu_readers c' = mu_readers ?c1"
      by blast
    have "run (replicate (Suc n) 0) c = Some c'"
      using e in_mode n Cons.prems(1) by simp
    moreover have "chans (st ?c1) = ?h" by simp
    ultimately show ?thesis using r False
      by (intro exI [of _ "Suc n"] exI [of _ c']) simp
  qed
qed

lemma SelectDoctor_code_runs:
  assumes "range_set cs (subs_of s d)"
  shows "\<exists>n c'. run (replicate n 0) (init s [start (SelectDoctor_code cs es w p d)]) = Some c' \<and>
      cont (threads c' ! 0) = [] \<and>
      ret (threads c' ! 0) = fst (SelectDoctor cs s p d) \<and>
      st c' = snd (SelectDoctor cs s p d) \<and>
      \<not> mu_writer c' \<and> mu_readers c' = 0"
proof -
  let ?c0 = "init s [start (SelectDoctor_code cs es w p d)]"
  show ?thesis
  proof (cases "patients s p")
    case None
    have "\<exists>c'. run (replicate 3 0) ?c0 = Some c' \<and> cont (threads c' ! 0) = [] \<and>
        ret (threads c' ! 0) = Return (Some (ErrNew ''patient not found'')) \<and> st c' = s \<and>
        \<not> mu_writer c' \<and> mu_readers c' = 0"
      using None
      by (simp add: numeral_3_eq_3 init_def start_def SelectDoctor_code_def exec_def scan_ok_def)
    then show ?thesis using None by (auto simp: SelectDoctor_def)
  next
    case (Some pt)
    note pt = Some
    show ?thesis
    proof (cases "doctors s d")
      case None
      have "\<exists>c'. run (replicate 4 0) ?c0 = Some c' \<and> cont (threads c' ! 0) = [] \<and>
          ret (threads c' ! 0) = Return (Some (ErrNew ''doctor not found'')) \<and> st c' = s \<and>
          \<not> mu_writer c' \<and> mu_readers c' = 0"
        using None pt
        by (simp add: eval_nat_numeral init_def start_def SelectDoctor_code_def exec_def
            scan_ok_def)
      then show ?thesis using None pt by (auto simp: SelectDoctor_def)
    next
      case (Some dr)
      let ?s1 = "s\<lparr>selections := (selections s)(p \<mapsto> d), spawned := Suc (spawned s)\<rparr>"
      have sub: "subs_of ?s1 d = subs_of s d" by (simp add: subs_of_def)
      obtain c6 where c6: "run (replicate 6 0) ?c0 = Some c6"
        and f: "0 < length (threads c6)" "cont (threads c6 ! 0) = map TrySend cs @ [Unlock]"
          "ret (threads c6 ! 0) = Return None" "mu_writer c6" "st c6 = ?s1" "mu_readers c6 = 0"
        using Some pt assms sub
        by (simp add: eval_nat_numeral init_def start_def SelectDoctor_code_def exec_def
            scan_ok_def)
      from run_sends [OF f(1-4)] obtain n c' where n: "run (replicate n 0) c6 = Some c'"
        and r: "cont (threads c' ! 0) = []"
          "ret (threads c' ! 0) =
            (case fst (publish cs (chans (st c6))) of None \<Rightarrow> Return None | Some msg \<Rightarrow> Panic msg)"
          "st c' = (st c6)\<lparr>chans := snd (publish cs (chans (st c6)))\<rparr>"
          "\<not> mu_writer c'" "mu_readers c' = mu_readers c6"
        by blast
      have "run (replicate (6 + n) 0) ?c0 = Some c'"
        using c6 n by (simp add: replicate_add run_append)
      then show ?thesis
        using r f(5,6) by (intro exI [of _ "6 + n"] exI [of _ c'])
          (simp add: SelectDoctor_found [OF pt Some])
    qed
  qed
qed

lemma persistSelections_code_runs:
  assumes "range_map es (selections s)"
  shows "\<exists>c'. run (replicate 4 0) (init s [start (persistSelections_code es w)]) = Some c' \<and>
      cont (threads c' ! 0) = [] \<and> st c' = persistSelections es w s \<and>
      \<not> mu_writer c' \<and> mu_readers c' = 0"
  using assms
  by (cases w)
     (simp_all add: eval_nat_numeral init_def start_def persistSelections_code_def exec_def
        scan_ok_def persistSelections_def)

subsection \<open>The example stores\<close>

lemma NewStore_seed0: "NewStore (Content seed0) NoFile = Inr store0"
  by (simp add: NewStore_def loadSelections_def seed0_def store0_def
      patient1_def patient2_def doctor10_def doctor20_def)

lemma NewStore_stale: "NewStore (Content seed0) (Content stale) = Inr store2"
  by (simp add: NewStore_def loadSelections_def seed0_def store2_def stale_def
      patient1_def patient2_def doctor10_def doctor20_def)

lemma NewStore_snap: "NewStore (Content seed0) (Content snap) = Inr store3"
  by (simp add: NewStore_def loadSelections_def seed0_def store3_def snap_def
      patient1_def patient2_def doctor10_def doctor20_def)

lemma store1_reached:
  "snd (SelectDoctor [1] (snd (Subscribe 20 (snd (Subscribe 10 store0)))) 1 20) = store1"
  by (simp add: SelectDoctor_def Subscribe_def subs_of_def store0_def store1_def)

lemma dir_ok_store1: "dir_ok store1"
  by (simp add: dir_ok_def store1_def patient1_def patient2_def)

lemma hub_ok_store1: "hub_ok store1"
  by (auto simp: hub_ok_def store1_def subs_of_def split: if_splits)

lemma store1_facts:
  "patients store1 1 = Some patient1" "patients store1 2 = Some patient2"
  "doctors store1 10 = Some doctor10" "selections store1 1 = Some 20"
  "subs_of store1 10 = {0}" "subs_of store1 20 = {1}"
  by (simp_all add: store1_def subs_of_def)

lemma conf0_init:
  "conf0 = init store1 (map (\<lambda>(cs, es, w, p, d). start (SelectDoctor_code cs es w p d))
                          [([0], [(1, 10)], Written, 1, 10)])"
  by (simp add: conf0_def)

section \<open>The claims\<close>

text \<open>
  C1. For a patient and a doctor that are both in the directory, \<open>SelectDoctor\<close>
  succeeds (on a well-formed registry), and afterwards the relation maps the patient to
  that doctor, \<open>PatientsOfDoctor\<close> of that doctor contains the patient (once), and
  \<open>PatientsOfDoctor\<close> of every other doctor does not contain the patient, whatever
  the patient's previous doctor was and in whatever order the relation is scanned.
\<close>

theorem SelectDoctor_assigns:
  assumes "patients s patientID = Some p" and "doctors s doctorID = Some d"
    and "dir_ok s" and "SelectDoctor cs s patientID doctorID = (r, s')"
  shows "(hub_ok s \<and> range_set cs (subs_of s doctorID) \<longrightarrow> r = Return None) \<and>
    selections s' patientID = Some doctorID \<and>
    (\<forall>es. range_map es (selections s') \<longrightarrow>
       p \<in> set (PatientsOfDoctor es s' doctorID) \<and>
       distinct (PatientsOfDoctor es s' doctorID) \<and>
       (\<forall>d'. d' \<noteq> doctorID \<longrightarrow> p \<notin> set (PatientsOfDoctor es s' d')))"
proof -
  have s': "selections s' = (selections s)(patientID \<mapsto> doctorID)" "patients s' = patients s"
    using assms(1,2,4) by (auto simp: SelectDoctor_found)
  have ret: "hub_ok s \<and> range_set cs (subs_of s doctorID) \<longrightarrow> r = Return None"
    using SelectDoctor_returns [of s cs doctorID patientID p d] assms by auto
  have "\<forall>es. range_map es (selections s') \<longrightarrow>
       p \<in> set (PatientsOfDoctor es s' doctorID) \<and>
       distinct (PatientsOfDoctor es s' doctorID) \<and>
       (\<forall>d'. d' \<noteq> doctorID \<longrightarrow> p \<notin> set (PatientsOfDoctor es s' d'))"
  proof (intro allI impI)
    fix es assume es: "range_map es (selections s')"
    have mem: "p \<in> set (PatientsOfDoctor es s' doctorID)"
      using assms(1) s' by (auto simp: set_PatientsOfDoctor [OF es])
    have dist: "distinct (PatientsOfDoctor es s' doctorID)"
      unfolding PatientsOfDoctor_def
      by (rule distinct_PatientsOfDoctor_loop)
         (use es assms(3) s' in \<open>auto simp: range_map_def dir_ok_def\<close>)
    have other: "p \<notin> set (PatientsOfDoctor es s' d')" if "d' \<noteq> doctorID" for d'
    proof
      assume "p \<in> set (PatientsOfDoctor es s' d')"
      then obtain pid where pid: "selections s' pid = Some d'" "patients s' pid = Some p"
        by (auto simp: set_PatientsOfDoctor [OF es])
      then have "pid = patientID" using assms(1,3) s' by (auto simp: dir_ok_def)
      then show False using pid that s' by simp
    qed
    show "p \<in> set (PatientsOfDoctor es s' doctorID) \<and>
       distinct (PatientsOfDoctor es s' doctorID) \<and>
       (\<forall>d'. d' \<noteq> doctorID \<longrightarrow> p \<notin> set (PatientsOfDoctor es s' d'))"
      using mem dist other by blast
  qed
  then show ?thesis using ret s' by simp
qed

theorem SelectDoctor_assigns_witness:
  "patients store1 1 = Some patient1 \<and> doctors store1 10 = Some doctor10 \<and> dir_ok store1 \<and>
   hub_ok store1 \<and> range_set [0] (subs_of store1 10) \<and> selections store1 1 = Some 20 \<and>
   fst (SelectDoctor [0] store1 1 10) = Return None \<and>
   selections (snd (SelectDoctor [0] store1 1 10)) 1 = Some 10 \<and>
   range_map [(1, 10)] (selections (snd (SelectDoctor [0] store1 1 10))) \<and>
   patient1 \<in> set (PatientsOfDoctor [(1, 10)] (snd (SelectDoctor [0] store1 1 10)) 10) \<and>
   patient1 \<notin> set (PatientsOfDoctor [(1, 10)] (snd (SelectDoctor [0] store1 1 10)) 20)"
proof -
  have h1: "patients store1 1 = Some patient1" and h2: "doctors store1 10 = Some doctor10"
    and h3: "selections store1 1 = Some 20"
    by (simp_all add: store1_def)
  have h4: "range_set [0] (subs_of store1 10)"
    by (simp add: range_set_def subs_of_def store1_def)
  have h5: "range_map [(1, 10)] (selections (snd (SelectDoctor [0] store1 1 10)))"
    by (simp add: SelectDoctor_found [OF h1 h2] range_map_def) (simp add: store1_def)
  have "(20::int) \<noteq> 10" by simp
  with SelectDoctor_assigns [OF h1 h2 dir_ok_store1 surjective_pairing, of "[0]"]
    h1 h2 h3 h4 h5 dir_ok_store1 hub_ok_store1
  show ?thesis by blast
qed

text \<open>
  C2. \<open>SelectDoctor\<close> with a patient id that is not in the directory returns the
  error "patient not found"; with a known patient and a doctor id that is not in the
  directory it returns "doctor not found". In both cases the store after the call is
  the store before it: the relation is unchanged, no channel has received a signal,
  and no persistence write has been started. (With both ids unknown the patient is
  checked first.)
\<close>

theorem SelectDoctor_not_found:
  "(patients s patientID = None \<longrightarrow>
      SelectDoctor cs s patientID doctorID = (Return (Some (ErrNew ''patient not found'')), s)) \<and>
   (patients s patientID \<noteq> None \<and> doctors s doctorID = None \<longrightarrow>
      SelectDoctor cs s patientID doctorID = (Return (Some (ErrNew ''doctor not found'')), s))"
  by (auto simp: SelectDoctor_def)

theorem SelectDoctor_not_found_witness:
  "patients store1 999 = None \<and>
   SelectDoctor [0] store1 999 10 = (Return (Some (ErrNew ''patient not found'')), store1) \<and>
   patients store1 1 \<noteq> None \<and> doctors store1 11 = None \<and>
   SelectDoctor [] store1 1 11 = (Return (Some (ErrNew ''doctor not found'')), store1)"
proof -
  have h1: "patients store1 999 = None" and h2: "patients store1 1 \<noteq> None"
    and h3: "doctors store1 11 = None"
    by (simp_all add: store1_def)
  show ?thesis
    using SelectDoctor_not_found [of store1 999 "[0]" 10]
      SelectDoctor_not_found [of store1 1 "[]" 11] h1 h2 h3
    by blast
qed

text \<open>
  C3. Take a subscriber channel registered for a doctor in a well-formed registry
  (every registered channel is open and was made by \<open>Subscribe\<close>, so its capacity
  is one), and a burst of one or more \<open>SelectDoctor\<close> calls for that doctor with
  known patients, with no receive in between. Every call of the burst succeeds, and
  afterwards exactly one signal is pending on the channel: the stream loop's next
  receive takes it, and the receive after that finds the channel empty.
\<close>

theorem burst_coalesces:
  assumes "hub_ok s" and "ch \<in> subs_of s doctorID" and "doctors s doctorID = Some d"
    and "calls \<noteq> []"
    and "\<forall>c \<in> set calls. range_set (fst c) (subs_of s doctorID) \<and> snd c \<in> dom (patients s)"
    and "burst calls doctorID s = (rs, s')"
  shows "rs = replicate (length calls) (Return None) \<and>
         buf (chans s' ch) = 1 \<and>
         fst (recv ch s') \<and> \<not> fst (recv ch (snd (recv ch s')))"
proof -
  from burst_effect [OF assms(1,3,5)] assms(2,4,6)
  have rs: "rs = replicate (length calls) (Return None)" and h: "hub_ok s'"
    and sb: "subs s' = subs s" and b: "buf (chans s' ch) = 1"
    by auto
  have "ch \<in> subs_of s' doctorID" using assms(2) sb by (simp add: subs_of_def)
  then have "\<not> closed (chans s' ch)" using h by (auto simp: hub_ok_def)
  then show ?thesis using rs b by (simp add: recv_chans)
qed

theorem burst_coalesces_witness:
  "hub_ok store1 \<and> 0 \<in> subs_of store1 10 \<and> doctors store1 10 = Some doctor10 \<and>
   range_set [0] (subs_of store1 10) \<and>
   patients store1 1 = Some patient1 \<and> patients store1 2 = Some patient2 \<and>
   fst (burst [([0], 1), ([0], 2)] 10 store1) = [Return None, Return None] \<and>
   buf (chans (snd (burst [([0], 1), ([0], 2)] 10 store1)) 0) = 1 \<and>
   fst (recv 0 (snd (burst [([0], 1), ([0], 2)] 10 store1))) \<and>
   \<not> fst (recv 0 (snd (recv 0 (snd (burst [([0], 1), ([0], 2)] 10 store1)))))"
proof -
  have cs: "range_set [0] (subs_of store1 10)"
    by (simp add: range_set_def store1_facts)
  have ch: "0 \<in> subs_of store1 10" by (simp add: store1_facts)
  have calls: "\<forall>c \<in> set [([0], 1), ([0], 2)].
      range_set (fst c) (subs_of store1 10) \<and> snd c \<in> dom (patients store1)"
    using cs by (simp add: store1_facts domI)
  have ne: "[([0::nat], 1::int), ([0], 2)] \<noteq> []" by simp
  from burst_coalesces [OF hub_ok_store1 ch store1_facts(3) ne calls surjective_pairing]
  show ?thesis using hub_ok_store1 cs by (simp add: store1_facts)
qed

text \<open>
  C4, as the code has it. The first call of \<open>cancel\<close> for a registered channel
  returns, takes the channel out of the doctor's set and closes it. A later call of
  the same \<open>cancel\<close>, after any operations of the server, leaves the whole store
  as it finds it (the \<open>delete\<close> has nothing to remove), but it does not return: it
  panics in \<open>close\<close> with "close of closed channel".
\<close>

theorem cancel_twice:
  assumes "hub_ok s" and "ch \<in> subs_of s doctorID" and "cancel doctorID ch s = (r1, s1)"
    and "step\<^sup>*\<^sup>* s1 s2" and "cancel doctorID ch s2 = (r2, s3)"
  shows "r1 = Return () \<and> ch \<notin> subs_of s1 doctorID \<and> closed (chans s1 ch) \<and>
         r2 = Panic ''close of closed channel'' \<and> s3 = s2"
proof -
  have s1: "s1 = snd (cancel doctorID ch s)" and r: "r1 = fst (cancel doctorID ch s)"
    using assms(3) by simp_all
  have o: "ch < nextch s" "\<not> closed (chans s ch)" using hub_okD [OF assms(1,2)] by simp_all
  have "hub_ok s1" unfolding s1 using assms(1,2) by (rule hub_ok_cancel)
  moreover have c1: "ch < nextch s1" "closed (chans s1 ch)" unfolding s1 using o by simp_all
  ultimately have s2: "hub_ok s2" "closed (chans s2 ch)"
    using steps_closed [OF assms(4)] by blast+
  then have "ch \<notin> subs_of s2 doctorID" using hub_okD [of s2 ch doctorID] by blast
  with s2(2) have "cancel doctorID ch s2 = (Panic ''close of closed channel'', s2)"
    by (rule cancel_closed_noop)
  with assms(5) have "r2 = Panic ''close of closed channel''" "s3 = s2" by simp_all
  moreover have "r1 = Return ()" using r o by simp
  moreover have "ch \<notin> subs_of s1 doctorID" unfolding s1 by simp
  ultimately show ?thesis using c1 by blast
qed

theorem cancel_twice_witness:
  "hub_ok store1 \<and> 0 \<in> subs_of store1 10 \<and>
   step\<^sup>*\<^sup>* (snd (cancel 10 0 store1)) (snd (cancel 10 0 store1)) \<and>
   fst (cancel 10 0 store1) = Return () \<and>
   0 \<notin> subs_of (snd (cancel 10 0 store1)) 10 \<and>
   cancel 10 0 (snd (cancel 10 0 store1)) =
     (Panic ''close of closed channel'', snd (cancel 10 0 store1))"
proof -
  have ch: "0 \<in> subs_of store1 10" by (simp add: store1_facts)
  have st: "step\<^sup>*\<^sup>* (snd (cancel 10 0 store1)) (snd (cancel 10 0 store1))" by simp
  from cancel_twice [OF hub_ok_store1 ch surjective_pairing st surjective_pairing]
  show ?thesis using hub_ok_store1 ch st by (simp add: prod_eq_iff)
qed

text \<open>
  The second call of the \<open>cancel\<close> that \<open>Subscribe\<close> returned panics: subscribe
  to doctor 10 on the fresh store, cancel, cancel again.
\<close>

theorem cancel_twice_counterexample:
  "fst (Subscribe 10 store0) = (0, cancel 10 0) \<and>
   fst (cancel 10 0 (snd (Subscribe 10 store0))) = Return () \<and>
   fst (cancel 10 0 (snd (cancel 10 0 (snd (Subscribe 10 store0))))) =
     Panic ''close of closed channel''"
  by (simp add: store0_def)

text \<open>
  C5. Once the \<open>cancel\<close> of a subscriber of a doctor has run, then after any
  further operations of the server, a \<open>SelectDoctor\<close> for that doctor finds the
  channel neither in the doctor's set nor in the list its loop visits, leaves the
  channel's state untouched, and does not panic.
\<close>

theorem publish_after_cancel:
  assumes "hub_ok s" and "ch \<in> subs_of s doctorID" and "cancel doctorID ch s = (r, s1)"
    and "step\<^sup>*\<^sup>* s1 s2" and "range_set cs (subs_of s2 doctorID)"
    and "SelectDoctor cs s2 patientID doctorID = (r', s3)"
  shows "r = Return () \<and> ch \<notin> subs_of s2 doctorID \<and> ch \<notin> set cs \<and>
         chans s3 ch = chans s2 ch \<and> (\<forall>msg. r' \<noteq> Panic msg)"
proof -
  have s1: "s1 = snd (cancel doctorID ch s)" and r: "r = fst (cancel doctorID ch s)"
    using assms(3) by simp_all
  have o: "ch < nextch s" "\<not> closed (chans s ch)" using hub_okD [OF assms(1,2)] by simp_all
  have "hub_ok s1" unfolding s1 using assms(1,2) by (rule hub_ok_cancel)
  moreover have "ch < nextch s1" "closed (chans s1 ch)" unfolding s1 using o by simp_all
  ultimately have s2: "hub_ok s2" "closed (chans s2 ch)"
    using steps_closed [OF assms(4)] by blast+
  then have out: "ch \<notin> subs_of s2 doctorID" using hub_okD [of s2 ch doctorID] by blast
  then have "ch \<notin> set cs" using assms(5) by (simp add: range_set_def)
  have fr: "chans s3 ch = chans s2 ch"
    using SelectDoctor_frame [OF s2(1) assms(5) out, of patientID] assms(6) by simp
  have "set cs = subs_of s2 doctorID" using assms(5) by (simp add: range_set_def)
  then have "\<forall>c \<in> set cs. \<not> closed (chans s2 c)"
    using hub_okD [OF s2(1)] by blast
  then have "fst (publish cs (chans s2)) = None" by (rule publish_ok)
  moreover have "r' = fst (SelectDoctor cs s2 patientID doctorID)" using assms(6) by simp
  ultimately have np: "\<forall>msg. r' \<noteq> Panic msg"
    by (simp add: SelectDoctor_fst split: option.splits)
  have "r = Return ()" using r o by simp
  with out \<open>ch \<notin> set cs\<close> fr np show ?thesis by blast
qed

theorem publish_after_cancel_witness:
  "hub_ok store1 \<and> 0 \<in> subs_of store1 10 \<and>
   fst (cancel 10 0 store1) = Return () \<and>
   step\<^sup>*\<^sup>* (snd (cancel 10 0 store1)) (snd (Subscribe 10 (snd (cancel 10 0 store1)))) \<and>
   range_set [2] (subs_of (snd (Subscribe 10 (snd (cancel 10 0 store1)))) 10) \<and>
   0 \<notin> subs_of (snd (Subscribe 10 (snd (cancel 10 0 store1)))) 10 \<and>
   chans (snd (SelectDoctor [2] (snd (Subscribe 10 (snd (cancel 10 0 store1)))) 1 10)) 0 =
     chans (snd (Subscribe 10 (snd (cancel 10 0 store1)))) 0 \<and>
   fst (SelectDoctor [2] (snd (Subscribe 10 (snd (cancel 10 0 store1)))) 1 10) \<noteq>
     Panic ''send on closed channel''"
proof -
  let ?s1 = "snd (cancel 10 0 store1)"
  let ?s2 = "snd (Subscribe 10 ?s1)"
  have ch: "0 \<in> subs_of store1 10" by (simp add: store1_facts)
  have st: "step\<^sup>*\<^sup>* ?s1 ?s2" by (rule r_into_rtranclp) (rule step_subscribe)
  have n: "nextch store1 = 2" by (simp add: store1_def)
  have cs: "range_set [2] (subs_of ?s2 10)"
    by (simp add: range_set_def store1_facts n)
  from publish_after_cancel [OF hub_ok_store1 ch surjective_pairing st cs surjective_pairing]
  show ?thesis using hub_ok_store1 ch st cs by blast
qed

text \<open>
  C6. For every relation, \<open>persistSelections\<close> (in whatever order it scans the map,
  when the write succeeds) followed by a fresh \<open>NewStore\<close> that reads the file
  written gives a store whose relation is the same map.
\<close>

theorem persist_load_roundtrip:
  assumes "range_map es (selections s)"
  shows "\<exists>s'. NewStore (Content sd) (disk (persistSelections es Written s)) = Inr s' \<and>
          selections s' = selections s"
proof -
  have "map (\<lambda>x. (PatientID x, DoctorID x))
          (map (\<lambda>(pid, did). \<lparr>PatientID = pid, DoctorID = did\<rparr>) es) = es"
    by (induction es) auto
  then have "fold (\<lambda>x m. m(PatientID x \<mapsto> DoctorID x))
          (map (\<lambda>(pid, did). \<lparr>PatientID = pid, DoctorID = did\<rparr>) es) Map.empty = map_of (rev es)"
    by (simp add: fold_upd_map_of)
  also have "\<dots> = selections s"
    using assms by (simp add: range_map_def map_of_rev_distinct)
  finally show ?thesis
    by (simp add: NewStore_def loadSelections_def persistSelections_def Let_def)
qed

theorem persist_load_roundtrip_witness:
  "range_map [(1, 10), (2, 20)] (selections store3) \<and>
   disk (persistSelections [(1, 10), (2, 20)] Written store3) =
     Content [\<lparr>PatientID = 1, DoctorID = 10\<rparr>, \<lparr>PatientID = 2, DoctorID = 20\<rparr>] \<and>
   (\<exists>s'. NewStore (Content seed0) (disk (persistSelections [(1, 10), (2, 20)] Written store3)) =
           Inr s' \<and> selections s' = selections store3)"
proof -
  have h: "range_map [(1, 10), (2, 20)] (selections store3)"
    by (auto simp: range_map_def store3_def)
  have d: "disk (persistSelections [(1, 10), (2, 20)] Written store3) =
     Content [\<lparr>PatientID = 1, DoctorID = 10\<rparr>, \<lparr>PatientID = 2, DoctorID = 20\<rparr>]"
    by (simp add: persistSelections_def)
  from persist_load_roundtrip [OF h, of seed0] h d show ?thesis by blast
qed

text \<open>
  C7. When a patient who has selected a doctor selects a different one, the call
  succeeds, every subscriber of the new doctor has a signal pending, the channel of
  every subscriber of the old doctor, and of every doctor other than the new one, is
  exactly as before, a channel whose state changed is registered for the new doctor,
  and the registry is unchanged.
\<close>

theorem SelectDoctor_notifies_new_only:
  assumes "hub_ok s" and "range_set cs (subs_of s doctorID)"
    and "patients s patientID = Some p" and "doctors s doctorID = Some d"
    and "selections s patientID = Some d_old" and "d_old \<noteq> doctorID"
    and "SelectDoctor cs s patientID doctorID = (r, s')"
  shows "r = Return None \<and> subs s' = subs s \<and>
    (\<forall>ch \<in> subs_of s doctorID. buf (chans s' ch) = 1) \<and>
    (\<forall>ch \<in> subs_of s d_old. chans s' ch = chans s ch) \<and>
    (\<forall>d' ch. d' \<noteq> doctorID \<longrightarrow> ch \<in> subs_of s d' \<longrightarrow> chans s' ch = chans s ch) \<and>
    (\<forall>ch. chans s' ch \<noteq> chans s ch \<longrightarrow> ch \<in> subs_of s doctorID)"
proof -
  have r: "r = fst (SelectDoctor cs s patientID doctorID)"
    and s': "s' = snd (SelectDoctor cs s patientID doctorID)"
    using assms(7) by simp_all
  have other: "ch \<notin> subs_of s doctorID" if "d' \<noteq> doctorID" "ch \<in> subs_of s d'" for d' ch
    using assms(1) that by (auto simp: hub_ok_def)
  have 1: "r = Return None"
    unfolding r using assms(1-4) by (rule SelectDoctor_returns)
  have 2: "subs s' = subs s" unfolding s' by simp
  have 3: "\<forall>ch \<in> subs_of s doctorID. buf (chans s' ch) = 1"
    unfolding s' using SelectDoctor_signal [OF assms(1,2) _ assms(3,4)] by blast
  have 4: "\<forall>d' ch. d' \<noteq> doctorID \<longrightarrow> ch \<in> subs_of s d' \<longrightarrow> chans s' ch = chans s ch"
    unfolding s' using SelectDoctor_frame [OF assms(1,2)] other by blast
  have 5: "\<forall>ch \<in> subs_of s d_old. chans s' ch = chans s ch"
    using 4 assms(6) by blast
  have 6: "\<forall>ch. chans s' ch \<noteq> chans s ch \<longrightarrow> ch \<in> subs_of s doctorID"
    unfolding s' using SelectDoctor_frame [OF assms(1,2)] by blast
  show ?thesis using 1 2 3 4 5 6 by blast
qed

theorem SelectDoctor_notifies_new_only_witness:
  "hub_ok store1 \<and> range_set [0] (subs_of store1 10) \<and> patients store1 1 = Some patient1 \<and>
   doctors store1 10 = Some doctor10 \<and> selections store1 1 = Some 20 \<and>
   1 \<in> subs_of store1 20 \<and> 0 \<in> subs_of store1 10 \<and>
   fst (SelectDoctor [0] store1 1 10) = Return None \<and>
   buf (chans (snd (SelectDoctor [0] store1 1 10)) 0) = 1 \<and>
   chans (snd (SelectDoctor [0] store1 1 10)) 1 = chans store1 1"
proof -
  have cs: "range_set [0] (subs_of store1 10)"
    by (simp add: range_set_def store1_facts)
  have ne: "(20::int) \<noteq> 10" by simp
  from SelectDoctor_notifies_new_only [OF hub_ok_store1 cs store1_facts(1,3,4) ne surjective_pairing]
  show ?thesis using hub_ok_store1 cs by (simp add: store1_facts)
qed

text \<open>
  C8, as the code has it. \<open>SelectDoctor\<close> checks both ids before it writes, and
  \<open>loadSelections\<close> checks nothing. So every key of the relation is a patient of
  the directory and every value a doctor of the directory in every state reached from
  a startup by operations of the server, provided that the snapshot read at startup
  (if one was read) names only patients and doctors of the seed.
\<close>

theorem ref_ok_reachable:
  assumes "NewStore (Content sd) sel = Inr s0"
    and "\<forall>arr. sel = Content arr \<longrightarrow>
           (\<forall>x \<in> set arr. PatientID x \<in> Patient.ID ` set (Patients sd) \<and>
                          DoctorID x \<in> Doctor.ID ` set (Doctors sd))"
    and "step\<^sup>*\<^sup>* s0 s"
  shows "ref_ok s"
  using steps_ref_ok [OF assms(3)] NewStore_ref_ok [OF assms(1,2)] by blast

theorem ref_ok_reachable_witness:
  "NewStore (Content seed0) (Content snap) = Inr store3 \<and>
   step\<^sup>*\<^sup>* store3 (snd (SelectDoctor [] store3 2 10)) \<and>
   selections (snd (SelectDoctor [] store3 2 10)) 2 = Some 10 \<and>
   ref_ok (snd (SelectDoctor [] store3 2 10))"
proof -
  have ok: "\<forall>arr. Content snap = Content arr \<longrightarrow>
      (\<forall>x \<in> set arr. PatientID x \<in> Patient.ID ` set (Patients seed0) \<and>
                     DoctorID x \<in> Doctor.ID ` set (Doctors seed0))"
    by (simp add: snap_def seed0_def patient1_def patient2_def doctor10_def doctor20_def)
  have "range_set [] (subs_of store3 10)"
    by (simp add: range_set_def subs_of_def store3_def)
  then have st: "step\<^sup>*\<^sup>* store3 (snd (SelectDoctor [] store3 2 10))"
    by (intro r_into_rtranclp step_select)
  have sel: "selections (snd (SelectDoctor [] store3 2 10)) 2 = Some 10"
    by (simp add: SelectDoctor_selections store3_def)
  from ref_ok_reachable [OF NewStore_snap ok st] NewStore_snap st sel
  show ?thesis by blast
qed

text \<open>
  Without that proviso the invariant fails right after startup: the snapshot
  \<open>stale\<close> names patient 999, the seed does not have it, and the relation of
  \<open>store2\<close> maps 999 to doctor 10.
\<close>

theorem ref_ok_counterexample:
  "NewStore (Content seed0) (Content stale) = Inr store2 \<and>
   selections store2 999 = Some 10 \<and> patients store2 999 = None \<and> \<not> ref_ok store2"
proof -
  have a: "selections store2 999 = Some 10" and b: "patients store2 999 = None"
    by (simp_all add: store2_def)
  then have "\<not> ref_ok store2" by (auto simp: ref_ok_def)
  with a b NewStore_stale show ?thesis by blast
qed

text \<open>
  C9, as the code has it. Run any number of calls of \<open>SelectDoctor\<close> as goroutines,
  with the \<open>persistSelections\<close> goroutines they start, under any schedule. Whenever
  a goroutine is about to run a statement of \<open>SelectDoctor\<close> that comes after its
  \<open>Lock\<close> (a check, the write to the map, the \<open>go\<close> statement, the head of the
  publish loop, a send of the loop, the deferred \<open>Unlock\<close>), the exclusive lock is
  held; a send leaves it held, and while a send is due no goroutine that asks for the
  mutex, as a writer or as a reader, can take its step. The lock spans the call from
  entry to return, the publish as well as the map mutation. Whenever a goroutine is about to run a statement
  of \<open>persistSelections\<close> that comes after its \<open>RLock\<close> (the snapshot, the write of
  the file, the \<open>RUnlock\<close>), the exclusive lock is not held and a read lock is: the
  persistence write is never executed while the exclusive lock is held. The statements
  are those of the two functions: run alone from a free mutex, a call returns what
  \<open>SelectDoctor\<close> returns and leaves the store that it leaves, and the goroutine
  leaves the store that \<open>persistSelections\<close> leaves.
\<close>

theorem SelectDoctor_lock_span:
  assumes "run sched (init s (map (\<lambda>(cs, es, w, p, d). start (SelectDoctor_code cs es w p d)) calls))
             = Some c"
    and "next_instr c i = Some ins"
  shows "((\<exists>p. ins = CheckPatient p) \<or> (\<exists>d. ins = CheckDoctor d) \<or>
          (\<exists>p d. ins = SetSelection p d) \<or> (\<exists>es w. ins = Go_persistSelections es w) \<or>
          (\<exists>d cs. ins = RangeSubs d cs) \<or> (\<exists>ch. ins = TrySend ch) \<or> ins = Unlock
            \<longrightarrow> mu_writer c) \<and>
         (\<forall>ch. ins = TrySend ch \<longrightarrow>
            (\<exists>c'. exec i c = Some c' \<and> mu_writer c') \<and>
            (\<forall>j. next_instr c j = Some Lock \<or> next_instr c j = Some RLock \<longrightarrow>
                 exec j c = None)) \<and>
         ((\<exists>es. ins = Snapshot es) \<or> (\<exists>w. ins = WriteFile w) \<or> ins = RUnlock
            \<longrightarrow> \<not> mu_writer c \<and> 0 < mu_readers c) \<and>
         (\<forall>w. ins = WriteFile w \<longrightarrow> (\<exists>c'. exec i c = Some c' \<and> \<not> mu_writer c')) \<and>
         (\<forall>cs es w p d. range_set cs (subs_of s d) \<longrightarrow>
            (\<exists>n c'. run (replicate n 0) (init s [start (SelectDoctor_code cs es w p d)]) = Some c' \<and>
               cont (threads c' ! 0) = [] \<and>
               ret (threads c' ! 0) = fst (SelectDoctor cs s p d) \<and>
               st c' = snd (SelectDoctor cs s p d) \<and>
               \<not> mu_writer c' \<and> mu_readers c' = 0)) \<and>
         (\<forall>es w. range_map es (selections s) \<longrightarrow>
            (\<exists>c'. run (replicate 4 0) (init s [start (persistSelections_code es w)]) = Some c' \<and>
               cont (threads c' ! 0) = [] \<and> st c' = persistSelections es w s \<and>
               \<not> mu_writer c' \<and> mu_readers c' = 0))"
proof -
  let ?ts = "map (\<lambda>(cs, es, w, p, d). start (SelectDoctor_code cs es w p d)) calls"
  have "\<forall>t \<in> set ?ts. in_mode Unheld (cont t)"
    by (auto simp: start_def in_mode_SelectDoctor_code)
  then have "mutex_inv (init s ?ts)" by (rule mutex_inv_init)
  with assms(1) have "mutex_inv c" by (rule run_mutex_inv)
  note n = mutex_inv_next [OF this assms(2)]
  from assms(2) obtain r where i: "i < length (threads c)" and k: "cont (threads c ! i) = ins # r"
    by (auto simp: next_instr_def split: if_splits list.splits)
  have 1: "(\<exists>p. ins = CheckPatient p) \<or> (\<exists>d. ins = CheckDoctor d) \<or>
          (\<exists>p d. ins = SetSelection p d) \<or> (\<exists>es w. ins = Go_persistSelections es w) \<or>
          (\<exists>d cs. ins = RangeSubs d cs) \<or> (\<exists>ch. ins = TrySend ch) \<or> ins = Unlock
            \<longrightarrow> mu_writer c"
    using n by auto
  have blocked: "exec j c = None"
    if "mu_writer c" and "next_instr c j = Some Lock \<or> next_instr c j = Some RLock" for j
    using that by (auto simp: exec_def next_instr_def split: if_splits list.splits)
  have 2: "\<forall>ch. ins = TrySend ch \<longrightarrow>
      (\<exists>c'. exec i c = Some c' \<and> mu_writer c') \<and>
      (\<forall>j. next_instr c j = Some Lock \<or> next_instr c j = Some RLock \<longrightarrow> exec j c = None)"
  proof (intro allI impI conjI)
    fix ch assume ch: "ins = TrySend ch"
    then have w: "mu_writer c" using 1 by blast
    show "\<exists>c'. exec i c = Some c' \<and> mu_writer c'"
      using w ch i k by (auto simp: exec_def)
    show "exec j c = None"
      if "next_instr c j = Some Lock \<or> next_instr c j = Some RLock" for j
      using w that by (rule blocked)
  qed
  have 3: "(\<exists>es. ins = Snapshot es) \<or> (\<exists>w. ins = WriteFile w) \<or> ins = RUnlock
            \<longrightarrow> \<not> mu_writer c \<and> 0 < mu_readers c"
    using n by auto
  have 4: "\<forall>w. ins = WriteFile w \<longrightarrow> (\<exists>c'. exec i c = Some c' \<and> \<not> mu_writer c')"
    using 3 i k by (auto simp: exec_def)
  have 5: "\<forall>cs es w p d. range_set cs (subs_of s d) \<longrightarrow>
      (\<exists>n c'. run (replicate n 0) (init s [start (SelectDoctor_code cs es w p d)]) = Some c' \<and>
         cont (threads c' ! 0) = [] \<and>
         ret (threads c' ! 0) = fst (SelectDoctor cs s p d) \<and>
         st c' = snd (SelectDoctor cs s p d) \<and>
         \<not> mu_writer c' \<and> mu_readers c' = 0)"
    by (intro allI impI) (rule SelectDoctor_code_runs)
  have 6: "\<forall>es w. range_map es (selections s) \<longrightarrow>
      (\<exists>c'. run (replicate 4 0) (init s [start (persistSelections_code es w)]) = Some c' \<and>
         cont (threads c' ! 0) = [] \<and> st c' = persistSelections es w s \<and>
         \<not> mu_writer c' \<and> mu_readers c' = 0)"
    by (intro allI impI) (rule persistSelections_code_runs)
  from 1 2 3 4 5 6 show ?thesis by (intro conjI)
qed

theorem SelectDoctor_lock_span_witness:
  "(\<exists>c. run [0, 0, 0, 0, 0, 0] conf0 = Some c \<and> next_instr c 0 = Some (TrySend 0) \<and>
        mu_writer c) \<and>
   (\<exists>c. run [0, 0, 0, 0, 0, 0, 0, 0, Suc 0, Suc 0] conf0 = Some c \<and>
        next_instr c (Suc 0) = Some (WriteFile Written) \<and> \<not> mu_writer c \<and> 0 < mu_readers c) \<and>
   range_set [0] (subs_of store1 10) \<and>
   (\<exists>n c. run (replicate n 0) conf0 = Some c \<and> cont (threads c ! 0) = [] \<and>
        ret (threads c ! 0) = Return None \<and> st c = snd (SelectDoctor [0] store1 1 10) \<and>
        \<not> mu_writer c)"
proof -
  have "\<exists>c. run [0, 0, 0, 0, 0, 0] conf0 = Some c \<and> next_instr c 0 = Some (TrySend 0)"
    by (simp add: conf0_def init_def start_def SelectDoctor_code_def exec_def scan_ok_def
        next_instr_def range_set_def store1_facts)
       (simp add: store1_def subs_of_def)
  then obtain cA where rA: "run [0, 0, 0, 0, 0, 0] conf0 = Some cA"
    and nA: "next_instr cA 0 = Some (TrySend 0)" by blast
  have "\<exists>c. run [0, 0, 0, 0, 0, 0, 0, 0, Suc 0, Suc 0] conf0 = Some c \<and>
        next_instr c (Suc 0) = Some (WriteFile Written)"
    by (simp add: conf0_def init_def start_def SelectDoctor_code_def persistSelections_code_def
        exec_def scan_ok_def next_instr_def range_set_def range_map_def store1_facts)
       (simp add: store1_def subs_of_def)
  then obtain cB where rB: "run [0, 0, 0, 0, 0, 0, 0, 0, Suc 0, Suc 0] conf0 = Some cB"
    and nB: "next_instr cB (Suc 0) = Some (WriteFile Written)" by blast
  note TA = SelectDoctor_lock_span [OF rA [unfolded conf0_init] nA]
  note TB = SelectDoctor_lock_span [OF rB [unfolded conf0_init] nB]
  have A: "mu_writer cA" using TA [THEN conjunct1] by simp
  have B: "\<not> mu_writer cB \<and> 0 < mu_readers cB"
    using TB [THEN conjunct2, THEN conjunct2, THEN conjunct1] by simp
  have cs: "range_set [0] (subs_of store1 10)" by (simp add: range_set_def store1_facts)
  have ok: "fst (SelectDoctor [0] store1 1 10) = Return None"
    using hub_ok_store1 cs store1_facts(1,3) by (rule SelectDoctor_returns)
  from TA [THEN conjunct2, THEN conjunct2, THEN conjunct2, THEN conjunct2, THEN conjunct1,
      rule_format, OF cs, of "[(1, 10)]" Written 1]
  have C: "\<exists>n c. run (replicate n 0) conf0 = Some c \<and> cont (threads c ! 0) = [] \<and>
        ret (threads c ! 0) = Return None \<and> st c = snd (SelectDoctor [0] store1 1 10) \<and>
        \<not> mu_writer c"
    unfolding conf0_def ok by blast
  show ?thesis using rA nA A rB nB B cs C by blast
qed

text \<open>
  The publish under the lock: in the run of \<open>conf0\<close>, after six steps the goroutine
  is about to send to channel 0 and the exclusive lock is held; one step later the
  signal is pending on channel 0, the next statement is the \<open>Unlock\<close>, and the lock is
  still held.
\<close>

theorem SelectDoctor_lock_span_counterexample:
  "map_option (\<lambda>c. (next_instr c 0, mu_writer c)) (run [0, 0, 0, 0, 0, 0] conf0) =
     Some (Some (TrySend 0), True) \<and>
   map_option (\<lambda>c. (buf (chans (st c) 0), next_instr c 0, mu_writer c))
     (run [0, 0, 0, 0, 0, 0, 0] conf0) = Some (1, Some Unlock, True)"
  by (simp add: conf0_def init_def start_def SelectDoctor_code_def exec_def scan_ok_def
      next_instr_def range_set_def store1_facts)
     (simp add: store1_def subs_of_def)

text \<open>
  C10. Whatever the relation holds and in whatever order it is scanned,
  \<open>PatientsOfDoctor\<close> returns the directory records of the patients mapped to the
  doctor, and nothing else; an entry whose patient id is not in the directory adds
  nothing: the result is the one of the scan without such entries. \<open>SelectDoctor\<close>
  never writes an entry for a patient id that is not in the directory, so such entries
  come from the snapshot read at startup only.
\<close>

theorem PatientsOfDoctor_known_only:
  assumes "range_map es (selections s)"
  shows "set (PatientsOfDoctor es s doctorID) =
           {p. \<exists>pid. selections s pid = Some doctorID \<and> patients s pid = Some p} \<and>
         PatientsOfDoctor es s doctorID =
           PatientsOfDoctor (filter (\<lambda>e. fst e \<in> dom (patients s)) es) s doctorID \<and>
         (\<forall>cs p d pid. patients s pid = None \<longrightarrow>
            selections (snd (SelectDoctor cs s p d)) pid = selections s pid)"
proof (intro conjI)
  show "set (PatientsOfDoctor es s doctorID) =
      {p. \<exists>pid. selections s pid = Some doctorID \<and> patients s pid = Some p}"
    using assms by (rule set_PatientsOfDoctor)
  show "PatientsOfDoctor es s doctorID =
      PatientsOfDoctor (filter (\<lambda>e. fst e \<in> dom (patients s)) es) s doctorID"
    by (simp add: PatientsOfDoctor_def PatientsOfDoctor_loop_skip)
  show "\<forall>cs p d pid. patients s pid = None \<longrightarrow>
      selections (snd (SelectDoctor cs s p d)) pid = selections s pid"
    by (auto simp: SelectDoctor_selections)
qed

theorem PatientsOfDoctor_known_only_witness:
  "range_map [(999, 10), (1, 10)] (selections store2) \<and> patients store2 999 = None \<and>
   PatientsOfDoctor [(999, 10), (1, 10)] store2 10 = [patient1] \<and>
   set (PatientsOfDoctor [(999, 10), (1, 10)] store2 10) =
     {p. \<exists>pid. selections store2 pid = Some 10 \<and> patients store2 pid = Some p}"
proof -
  have h: "range_map [(999, 10), (1, 10)] (selections store2)"
    by (auto simp: range_map_def store2_def)
  have e: "PatientsOfDoctor [(999, 10), (1, 10)] store2 10 = [patient1]"
    by (simp add: PatientsOfDoctor_def store2_def)
  have n: "patients store2 999 = None" by (simp add: store2_def)
  from PatientsOfDoctor_known_only [OF h, of 10]
  have "set (PatientsOfDoctor [(999, 10), (1, 10)] store2 10) =
     {p. \<exists>pid. selections store2 pid = Some 10 \<and> patients store2 pid = Some p}" ..
  with h e n show ?thesis by blast
qed

end
